theory Spec2Isabelle
  imports Main
begin

section \<open>HL7v2 inspector: a shallow embedding of \<^verbatim>\<open>scripts/hl7v2-inspect.py\<close>\<close>

text \<open>
  The script reads a file, extracts HL7v2 messages from its text and prints one of four
  views. Python's \<^verbatim>\<open>str\<close> is modelled by \<^typ>\<open>string\<close>: a character is read as
  a code point below 256. Python's unbounded \<^verbatim>\<open>int\<close> is \<^typ>\<open>int\<close>; a length is a
  \<^typ>\<open>nat\<close>. Standard output is the list of the texts handed to \<^verbatim>\<open>print\<close>, one
  element per call (the interpreter writes a newline after each).
  The result of \<^verbatim>\<open>str.upper\<close> can leave that range, so it is a list of code
  points, each a \<^typ>\<open>nat\<close>.
\<close>

subsection \<open>The string operations of Python that the script uses\<close>

text \<open>\<^verbatim>\<open>str.isspace\<close> on one code point below 256.\<close>

definition is_space :: "char \<Rightarrow> bool" where
  "is_space c = (c \<in> set [CHR 0x09, CHR 0x0A, CHR 0x0B, CHR 0x0C, CHR 0x0D,
     CHR 0x1C, CHR 0x1D, CHR 0x1E, CHR 0x1F, CHR 0x20, CHR 0x85, CHR 0xA0])"

definition is_lower :: "char \<Rightarrow> bool" where
  "is_lower c = (c \<in> set ''abcdefghijklmnopqrstuvwxyz'')"

definition is_digit :: "char \<Rightarrow> bool" where
  "is_digit c = (c \<in> set ''0123456789'')"

text \<open>\<^verbatim>\<open>s.strip()\<close>: whitespace removed at both ends.\<close>

definition strip :: "string \<Rightarrow> string" where
  "strip s = rev (dropWhile is_space (rev (dropWhile is_space s)))"

text \<open>\<^verbatim>\<open>s.startswith(p)\<close>.\<close>

definition startswith :: "string \<Rightarrow> string \<Rightarrow> bool" where
  "startswith s p = (take (length p) s = p)"

text \<open>
  \<^verbatim>\<open>s.split(sep)\<close> for a separator of one character, which is all the script uses:
  empty pieces are kept and the empty string gives one empty piece. A character other
  than the separator goes in front of the first piece of the rest; the rest always has a
  first piece, so the alternative for \<open>[]\<close> is never taken.
\<close>

fun split :: "char \<Rightarrow> string \<Rightarrow> string list" where
  "split sep [] = [[]]"
| "split sep (c # cs) =
     (if c = sep then [] # split sep cs
      else (case split sep cs of [] \<Rightarrow> [[c]] | p # ps \<Rightarrow> (c # p) # ps))"

text \<open>\<^verbatim>\<open>sep.join(xs)\<close>.\<close>

fun join :: "string \<Rightarrow> string list \<Rightarrow> string" where
  "join sep [] = []"
| "join sep [x] = x"
| "join sep (x # y # ys) = x @ sep @ join sep (y # ys)"

text \<open>
  \<^verbatim>\<open>s.upper()\<close>, character by character. Below 256 the letters with an upper-case
  form are \<^verbatim>\<open>a\<close> to \<^verbatim>\<open>z\<close>, U+00E0 to U+00FE without U+00F7 (each 32 above its
  upper-case form), U+00B5 (which gives U+039C), U+00FF (which gives U+0178) and U+00DF
  (which gives the two letters \<^verbatim>\<open>SS\<close>). The result is compared with a string of
  the model through the code points of that string.
\<close>

definition code_points :: "string \<Rightarrow> nat list" where
  "code_points s = map of_char s"

definition upper_char :: "char \<Rightarrow> nat list" where
  "upper_char c =
     (let n = of_char c in
      if (97 \<le> n \<and> n \<le> 122) \<or> (224 \<le> n \<and> n \<le> 246) \<or> (248 \<le> n \<and> n \<le> 254) then [n - 32]
      else if n = 181 then [924]
      else if n = 223 then [83, 83]
      else if n = 255 then [376]
      else [n])"

definition upper :: "string \<Rightarrow> nat list" where
  "upper s = concat (map upper_char s)"

text \<open>\<^verbatim>\<open>str(n)\<close> for an integer, as an f-string formats it: decimal digits, a minus sign
  for a negative number.\<close>

fun str_nat :: "nat \<Rightarrow> string" where
  "str_nat n =
     (if n < 10 then [''0123456789'' ! n]
      else str_nat (n div 10) @ [''0123456789'' ! (n mod 10)])"

declare str_nat.simps [simp del]

definition str_int :: "int \<Rightarrow> string" where
  "str_int i = (if i < 0 then CHR ''-'' # str_nat (nat (- i)) else str_nat (nat i))"

text \<open>
  \<^verbatim>\<open>int(s)\<close>: surrounding whitespace is dropped, one sign is allowed, and the rest
  is decimal digits in which single underscores may stand between two digits. Anything
  else raises \<^verbatim>\<open>ValueError\<close>, which is \<open>None\<close> here. The whitespace that
  \<^verbatim>\<open>int\<close> drops is not that of \<^verbatim>\<open>str.strip\<close>: the separators U+001C to U+001F
  are not dropped. A text with more than 4300 digits is refused as well (the limit the
  interpreter sets by default; underscores, the sign and whitespace do not count). The
  same limit holds for \<^verbatim>\<open>str(n)\<close>, which the script only applies to numbers that
  have passed it or are smaller.
\<close>

definition is_int_space :: "char \<Rightarrow> bool" where
  "is_int_space c = (c \<in> set [CHR 0x09, CHR 0x0A, CHR 0x0B, CHR 0x0C, CHR 0x0D,
     CHR 0x20, CHR 0x85, CHR 0xA0])"

definition int_strip :: "string \<Rightarrow> string" where
  "int_strip s = rev (dropWhile is_int_space (rev (dropWhile is_int_space s)))"

fun digits_ok :: "string \<Rightarrow> bool" where
  "digits_ok [] = False"
| "digits_ok [c] = is_digit c"
| "digits_ok (c # d # cs) =
     (if is_digit c then (if d = CHR ''_'' then digits_ok cs else digits_ok (d # cs))
      else False)"

definition digit_value :: "char \<Rightarrow> int" where
  "digit_value c = int (length (takeWhile (\<lambda>d. d \<noteq> c) ''0123456789''))"

definition decimal :: "string \<Rightarrow> int option" where
  "decimal s =
     (if digits_ok s \<and> length (filter is_digit s) \<le> 4300
      then Some (foldl (\<lambda>a c. 10 * a + digit_value c) 0 (filter is_digit s))
      else None)"

definition py_int :: "string \<Rightarrow> int option" where
  "py_int s =
     (case int_strip s of
        [] \<Rightarrow> None
      | c # cs \<Rightarrow>
          if c = CHR ''-'' then map_option uminus (decimal cs)
          else if c = CHR ''+'' then decimal cs
          else decimal (c # cs))"

subsection \<open>The recognised segment names\<close>

definition SEGMENT_NAMES :: "string set" where
  "SEGMENT_NAMES =
     {''MSH'', ''PID'', ''PV1'', ''PV2'', ''PD1'', ''NK1'', ''ORC'', ''OBR'', ''OBX'',
      ''RXA'', ''RXR'', ''SPM'', ''NTE'', ''AL1'', ''DG1'', ''GT1'', ''IN1'', ''IN2'',
      ''IN3'', ''TQ1'', ''TQ2'', ''SFT'', ''UAC'', ''ARV'', ''PRT'', ''EVN'', ''MRG'',
      ''ROL'', ''FT1'', ''ACC'', ''UB1'', ''UB2'', ''RXE'', ''RXD'', ''RXG'', ''RXC''}"

subsection \<open>\<^verbatim>\<open>extract_messages\<close>\<close>

text \<open>
  \<^verbatim>\<open>re.sub(r"\\[a-z]+\d*\s?", "", content)\<close>: at a backslash followed by a lower-case
  letter the longest run of letters, then of digits, then one whitespace character if
  there is one, is removed, and the scan goes on behind it. Every other character is
  kept. The pattern is greedy and nothing follows its optional parts, so no
  backtracking takes place.
\<close>

definition control_word_rest :: "string \<Rightarrow> string" where
  "control_word_rest cs =
     (let after_digits = dropWhile is_digit (dropWhile is_lower cs)
      in case after_digits of
           [] \<Rightarrow> []
         | d # ds \<Rightarrow> if is_space d then ds else d # ds)"

function strip_control_words :: "string \<Rightarrow> string" where
  "strip_control_words [] = []"
| "strip_control_words (c # cs) =
     (if c = CHR 0x5C \<and> cs \<noteq> [] \<and> is_lower (hd cs)
      then strip_control_words (control_word_rest cs)
      else c # strip_control_words cs)"
  by pat_completeness auto

lemma length_control_word_rest: "length (control_word_rest cs) \<le> length cs"
proof -
  define r where "r = dropWhile is_digit (dropWhile is_lower cs)"
  have a: "length r \<le> length cs"
    unfolding r_def by (meson le_trans length_dropWhile_le)
  have "control_word_rest cs =
      (case r of [] \<Rightarrow> [] | d # ds \<Rightarrow> if is_space d then ds else d # ds)"
    by (simp add: control_word_rest_def r_def)
  then show ?thesis
    using a by (cases r) auto
qed

termination strip_control_words
  by (relation "measure length") (auto simp: length_control_word_rest less_Suc_eq_le)

text \<open>Lines 24 to 26: the rich-text wrapper is stripped when the content starts with
  \<^verbatim>\<open>{\rtf\<close>.\<close>

definition strip_rtf :: "string \<Rightarrow> string" where
  "strip_rtf content =
     (if startswith content (CHR ''{'' # CHR 0x5C # ''rtf'')
      then filter (\<lambda>c. c \<noteq> CHR ''{'' \<and> c \<noteq> CHR ''}'') (strip_control_words content)
      else content)"

text \<open>Lines 28 to 35: the loop that keeps the segment lines.\<close>

fun segment_lines :: "string list \<Rightarrow> string list" where
  "segment_lines [] = []"
| "segment_lines (raw # rest) =
     (let line = strip raw in
      if line = [] then segment_lines rest
      else
        let seg = strip (hd (split CHR ''|'' line)) in
        if seg \<in> SEGMENT_NAMES \<or> (seg = ''MSH'' \<and> CHR ''|'' \<in> set line)
        then line # segment_lines rest
        else segment_lines rest)"

text \<open>Lines 38 to 46: the grouping loop, with its two variables \<^verbatim>\<open>messages\<close> and
  \<^verbatim>\<open>current\<close> as the state.\<close>

fun group_lines :: "string list \<Rightarrow> string list list \<Rightarrow> string list \<Rightarrow>
    string list list \<times> string list" where
  "group_lines [] messages current = (messages, current)"
| "group_lines (line # lines) messages current =
     (if startswith line ''MSH|''
      then group_lines lines (if current \<noteq> [] then messages @ [current] else messages) [line]
      else group_lines lines messages (current @ [line]))"

definition retained_lines :: "string \<Rightarrow> string list" where
  "retained_lines content = segment_lines (split CHR 0x0A (strip_rtf content))"

text \<open>Lines 47 to 50: the message still open at the end is appended when it has lines.\<close>

definition extract_messages :: "string \<Rightarrow> string list list" where
  "extract_messages content =
     (case group_lines (retained_lines content) [] [] of
        (messages, current) \<Rightarrow> if current \<noteq> [] then messages @ [current] else messages)"

text \<open>The segment id of a line as the views read it: \<^verbatim>\<open>line.split("|")[0]\<close>.\<close>

definition segment_id :: "string \<Rightarrow> string" where
  "segment_id line = hd (split CHR ''|'' line)"

text \<open>The last step of \<^const>\<open>extract_messages\<close> on the state of the grouping loop, named
  for the proofs.\<close>

definition close_current :: "string list list \<times> string list \<Rightarrow> string list list" where
  "close_current r =
     (case r of (messages, current) \<Rightarrow> if current \<noteq> [] then messages @ [current] else messages)"

subsection \<open>\<^verbatim>\<open>describe_component\<close> and the Structure view\<close>

definition describe_component :: "string \<Rightarrow> string" where
  "describe_component val =
     (if val = [] then ''(empty)''
      else if CHR ''^'' \<in> set val then
        (let parts = split CHR ''^'' val;
             non_empty = length (filter (\<lambda>p. p \<noteq> []) parts)
         in ''('' @ str_nat non_empty @ ''/'' @ str_nat (length parts) @ '' components)'')
      else if CHR ''~'' \<in> set val then
        (let repeats = split CHR ''~'' val
         in ''('' @ str_nat (length repeats) @ '' repeats)'')
      else ''(len='' @ str_nat (length val) @ '')'')"

text \<open>Lines 83 to 88: the loop over \<^verbatim>\<open>enumerate(parts[1:], 1)\<close> that collects
  \<^verbatim>\<open>populated\<close>.\<close>

fun populated :: "string \<Rightarrow> (nat \<times> string) list \<Rightarrow> string list" where
  "populated seg [] = []"
| "populated seg ((j, val) # rest) =
     (if seg = ''MSH'' \<and> j = 1 then populated seg rest
      else if strip val \<noteq> [] then (str_nat j @ describe_component val) # populated seg rest
      else populated seg rest)"

text \<open>Lines 73 to 90, the body of the loop over the lines of a message. \<^verbatim>\<open>parts[0]\<close>
  is \<open>hd parts\<close>: \<^const>\<open>split\<close> never returns the empty list.\<close>

definition structure_line :: "string \<Rightarrow> string" where
  "structure_line line =
     (let parts = split CHR ''|'' line;
          seg = hd parts;
          total_fields = length parts - 1
      in ''  '' @ seg @ '' ('' @ str_nat total_fields @ '' fields) populated: ''
           @ join '', '' (populated seg (enumerate 1 (drop 1 parts))))"

definition show_structure :: "string list list \<Rightarrow> string list" where
  "show_structure messages =
     concat (map (\<lambda>(i, msg).
         (if length messages > 1
          then [''=== Message '' @ str_nat (i + 1) @ '' of '' @ str_nat (length messages) @ '' ==='']
          else [])
         @ map structure_line msg
         @ (if length messages > 1 then [[]] else []))
       (enumerate 0 messages))"

subsection \<open>The Values view\<close>

text \<open>The generator joined with \<^verbatim>\<open>" | "\<close> at lines 114 and 124.\<close>

definition comp_str :: "string \<Rightarrow> string" where
  "comp_str val =
     join '' | '' (map (\<lambda>(k, c).
         if c \<noteq> [] then ''C'' @ str_nat (k + 1) @ ''='' @ c
         else ''C'' @ str_nat (k + 1) @ ''=(empty)'')
       (enumerate 0 (split CHR ''^'' val)))"

fun values_fields :: "string \<Rightarrow> (nat \<times> string) list \<Rightarrow> string list" where
  "values_fields seg [] = []"
| "values_fields seg ((j, val) # rest) =
     (if seg = ''MSH'' \<and> j = 1
      then (''    Field '' @ str_nat j @ '': (encoding chars)'') # values_fields seg rest
      else if strip val \<noteq> [] then
        (if CHR ''^'' \<in> set val then [''    Field '' @ str_nat j @ '': '' @ comp_str val]
         else if CHR ''~'' \<in> set val then
           map (\<lambda>(r_idx, repeat).
               if CHR ''^'' \<in> set repeat
               then ''    Field '' @ str_nat j @ ''['' @ str_nat (r_idx + 1) @ '']: '' @ comp_str repeat
               else ''    Field '' @ str_nat j @ ''['' @ str_nat (r_idx + 1) @ '']: '' @ repeat)
             (enumerate 0 (split CHR ''~'' val))
         else [''    Field '' @ str_nat j @ '': '' @ val])
        @ values_fields seg rest
      else values_fields seg rest)"

text \<open>The filter is used when it is given and not the empty string (line 103 tests its
  truth value).\<close>

definition values_line :: "string option \<Rightarrow> string \<Rightarrow> string list" where
  "values_line segment_filter line =
     (let parts = split CHR ''|'' line;
          seg = hd parts
      in if (case segment_filter of None \<Rightarrow> False | Some f \<Rightarrow> f \<noteq> [] \<and> seg \<noteq> f) then []
         else (''  '' @ seg @ '':'') # values_fields seg (enumerate 1 (drop 1 parts)))"

definition show_values :: "string list list \<Rightarrow> string option \<Rightarrow> string list" where
  "show_values messages segment_filter =
     concat (map (\<lambda>(i, msg).
         (if length messages > 1
          then [''=== Message '' @ str_nat (i + 1) @ '' of '' @ str_nat (length messages) @ '' ==='']
          else [])
         @ concat (map (values_line segment_filter) msg)
         @ (if length messages > 1 then [[]] else []))
       (enumerate 0 messages))"

subsection \<open>Runs that may stop: \<^verbatim>\<open>sys.exit\<close> and uncaught exceptions\<close>

text \<open>
  The Field and Verify views can leave through \<^verbatim>\<open>sys.exit(1)\<close>, and an index out of
  range raises \<^verbatim>\<open>IndexError\<close>, which nothing catches. A run is what was printed
  together with how it stopped; \<open>None\<close> is a normal return.
\<close>

datatype py_error = IndexError

datatype stop = SysExit nat | Uncaught py_error

type_synonym run = "string list \<times> stop option"

definition printed :: "string list \<Rightarrow> run" where
  "printed out = (out, None)"

definition and_then :: "run \<Rightarrow> run \<Rightarrow> run" where
  "and_then r s = (case snd r of None \<Rightarrow> (fst r @ fst s, snd s) | Some e \<Rightarrow> r)"

fun run_all :: "run list \<Rightarrow> run" where
  "run_all [] = ([], None)"
| "run_all (r # rs) = and_then r (run_all rs)"

text \<open>\<^verbatim>\<open>xs[i]\<close>: a negative index counts from the end, and an index outside the list
  raises.\<close>

definition py_index :: "'a list \<Rightarrow> int \<Rightarrow> py_error + 'a" where
  "py_index xs i =
     (if 0 \<le> i \<and> i < int (length xs) then Inr (xs ! nat i)
      else if i < 0 \<and> - int (length xs) \<le> i then Inr (xs ! nat (int (length xs) + i))
      else Inl IndexError)"

text \<open>Lines 142 and 143 (185 and 186): unpacking the split selector into two names raises
  \<^verbatim>\<open>ValueError\<close> unless there are exactly two pieces, and so does \<^verbatim>\<open>int\<close> on a text
  that is no integer. Both are caught by the same handler.\<close>

definition parse_field_spec :: "string \<Rightarrow> (string \<times> int) option" where
  "parse_field_spec field_spec =
     (case split CHR ''.'' field_spec of
        [seg_type, field_num] \<Rightarrow>
          (case py_int field_num of None \<Rightarrow> None | Some n \<Rightarrow> Some (seg_type, n))
      | _ \<Rightarrow> None)"

subsection \<open>The Field view\<close>

definition field_line :: "nat list \<Rightarrow> int \<Rightarrow> string \<Rightarrow> run" where
  "field_line seg_type field_num line =
     (let parts = split CHR ''|'' line;
          seg = hd parts;
          label = ''  '' @ seg @ ''-'' @ str_int field_num @ '': ''
      in if code_points seg \<noteq> seg_type then printed []
         else if field_num \<ge> int (length parts)
         then printed [label @ ''(not present, only '' @ str_nat (length parts - 1) @ '' fields)'']
         else
           (case py_index parts field_num of
              Inl e \<Rightarrow> ([], Some (Uncaught e))
            | Inr val \<Rightarrow>
                if strip val = [] then printed [label @ ''(empty)'']
                else if CHR ''^'' \<in> set val then
                  printed ((label @ val) #
                    map (\<lambda>(k, c). ''    .'' @ str_nat (k + 1) @ '': '' @ (if c \<noteq> [] then c else ''(empty)''))
                      (enumerate 0 (split CHR ''^'' val)))
                else if CHR ''~'' \<in> set val then
                  (let repeats = split CHR ''~'' val
                   in printed ((label @ ''('' @ str_nat (length repeats) @ '' repeats)'') #
                        map (\<lambda>(r_idx, repeat). ''    ['' @ str_nat (r_idx + 1) @ '']: '' @ repeat)
                          (enumerate 0 repeats)))
                else printed [label @ val]))"

text \<open>The two loops over the messages and their lines, shared in shape by the Field and
  the Verify view: a banner per message when there are several, then the lines.\<close>

definition per_message :: "(string \<Rightarrow> run) \<Rightarrow> string list list \<Rightarrow> run" where
  "per_message body messages =
     run_all (map (\<lambda>(i, msg).
         and_then
           (printed (if length messages > 1 then [''--- Message '' @ str_nat (i + 1) @ '' ---''] else []))
           (run_all (map body msg)))
       (enumerate 0 messages))"

definition show_field :: "string list list \<Rightarrow> string \<Rightarrow> run" where
  "show_field messages field_spec =
     (case parse_field_spec field_spec of
        None \<Rightarrow>
          ([''Error: invalid field spec '' @ [CHR 0x27] @ field_spec @ [CHR 0x27]
              @ ''. Use format SEG.N (e.g., RXA.6)''], Some (SysExit 1))
      | Some (seg_type, field_num) \<Rightarrow> per_message (field_line (upper seg_type) field_num) messages)"

subsection \<open>The Verify view\<close>

text \<open>Lines 214 to 218: the loop that builds \<^verbatim>\<open>context_parts\<close>.\<close>

fun context_parts :: "string list \<Rightarrow> int \<Rightarrow> int list \<Rightarrow> py_error + string list" where
  "context_parts parts field_num [] = Inr []"
| "context_parts parts field_num (j # js) =
     (case (if j < int (length parts) then py_index parts j else Inr []) of
        Inl e \<Rightarrow> Inl e
      | Inr v \<Rightarrow>
          (case context_parts parts field_num js of
             Inl e \<Rightarrow> Inl e
           | Inr rest \<Rightarrow>
               Inr ((''    Field '' @ str_int j @ '': ''
                     @ (if strip v \<noteq> [] then v else ''(empty)'')
                     @ (if j = field_num then '' <<< '' else [])) # rest)))"

definition verify_line :: "nat list \<Rightarrow> int \<Rightarrow> string \<Rightarrow> run" where
  "verify_line seg_type field_num line =
     (let parts = split CHR ''|'' line;
          seg = hd parts
      in if code_points seg \<noteq> seg_type then printed []
         else
           let total = int (length parts) - 1 in
           if field_num > total
           then printed
             [''  '' @ seg @ '': has '' @ str_int total @ '' fields, requested field ''
                @ str_int field_num @ '' is beyond end'',
              ''  Need '' @ str_int (field_num - total) @ '' more pipes to reach field ''
                @ str_int field_num]
           else
             (case (if field_num < int (length parts) then py_index parts field_num
                    else Inr ''(absent)'') of
                Inl e \<Rightarrow> ([], Some (Uncaught e))
              | Inr val \<Rightarrow>
                  let val_display = (if strip val \<noteq> [] then val else ''(empty)'');
                      context_start = max 1 (field_num - 2);
                      context_end = min (total + 1) (field_num + 3)
                  in (case context_parts parts field_num [context_start..context_end - 1] of
                        Inl e \<Rightarrow> ([], Some (Uncaught e))
                      | Inr ctx \<Rightarrow>
                          printed
                            [''  '' @ seg @ '' ('' @ str_int total @ '' fields total), field ''
                               @ str_int field_num @ '' = '' @ val_display,
                             ''  Context:'',
                             join [CHR 0x0A] ctx])))"

definition verify_field :: "string list list \<Rightarrow> string \<Rightarrow> run" where
  "verify_field messages field_spec =
     (case parse_field_spec field_spec of
        None \<Rightarrow>
          ([''Error: invalid field spec '' @ [CHR 0x27] @ field_spec @ [CHR 0x27]
              @ ''. Use format SEG.N (e.g., RXA.20)''], Some (SysExit 1))
      | Some (seg_type, field_num) \<Rightarrow> per_message (verify_line (upper seg_type) field_num) messages)"

subsection \<open>\<^verbatim>\<open>main\<close>\<close>

text \<open>
  The parsed command line. A file system is a map from paths to contents; a path outside
  its domain is a file that is not found. Other failures of \<^verbatim>\<open>open\<close> and the usage
  errors of the argument parser are not modelled.
\<close>

record args =
  arg_file :: string
  arg_values :: bool
  arg_segment :: "string option"
  arg_field :: "string option"
  arg_verify :: "string option"

text \<open>\<^verbatim>\<open>if args.verify:\<close> holds for a selector that is given and not empty.\<close>

definition given :: "string option \<Rightarrow> string option" where
  "given s = (case s of None \<Rightarrow> None | Some t \<Rightarrow> if t = [] then None else Some t)"

definition main :: "(string \<rightharpoonup> string) \<Rightarrow> args \<Rightarrow> run" where
  "main fs a =
     (case fs (arg_file a) of
        None \<Rightarrow> ([''Error: file not found: '' @ arg_file a], Some (SysExit 1))
      | Some content \<Rightarrow>
          let messages = extract_messages content in
          if messages = [] then ([''No HL7v2 messages found in file''], Some (SysExit 1))
          else
            and_then
              (printed [''Found '' @ str_nat (length messages) @ '' message(s)'' @ [CHR 0x0A]])
              (case given (arg_verify a) of
                 Some v \<Rightarrow> verify_field messages v
               | None \<Rightarrow>
                   (case given (arg_field a) of
                      Some f \<Rightarrow> show_field messages f
                    | None \<Rightarrow>
                        if arg_values a then printed (show_values messages (arg_segment a))
                        else printed (show_structure messages))))"

text \<open>The status the process ends with: 0 after a normal return, the argument of
  \<^verbatim>\<open>sys.exit\<close>, and 1 when the interpreter ends on an uncaught exception.\<close>

definition exit_status :: "run \<Rightarrow> nat" where
  "exit_status r = (case snd r of None \<Rightarrow> 0 | Some (SysExit n) \<Rightarrow> n | Some (Uncaught e) \<Rightarrow> 1)"

subsection \<open>What the Structure view may depend on\<close>

text \<open>
  The numbers that the Structure view reports of a field value: whether it is blank, its
  length, how many \<^verbatim>\<open>^\<close> it has, how many of its components are not empty, and how
  many \<^verbatim>\<open>~\<close> it has. The shape of a line is its segment id with the shapes of its
  fields. These two definitions are not part of the script; the statement about the
  content that reaches the output of the Structure view is made with them.
\<close>

definition field_shape :: "string \<Rightarrow> bool \<times> nat \<times> nat \<times> nat \<times> nat" where
  "field_shape val =
     (strip val = [], length val, count_list val CHR ''^'',
      length (filter (\<lambda>p. p \<noteq> []) (split CHR ''^'' val)), count_list val CHR ''~'')"

definition line_shape :: "string \<Rightarrow> string \<times> (bool \<times> nat \<times> nat \<times> nat \<times> nat) list" where
  "line_shape line = (segment_id line, map field_shape (tl (split CHR ''|'' line)))"

section \<open>Properties\<close>

subsection \<open>Splitting and joining\<close>

lemma split_not_Nil [simp]: "split sep s \<noteq> []"
  by (induction s) (auto split: list.splits)

lemma join_split: "join [sep] (split sep s) = s"
proof (induction s)
  case Nil
  then show ?case by simp
next
  case (Cons c cs)
  obtain p ps where r: "split sep cs = p # ps"
    by (cases "split sep cs") auto
  show ?case
    using Cons r by (cases ps) auto
qed

lemma length_split: "length (split sep s) = Suc (count_list s sep)"
  by (induction s) (auto split: list.splits)

lemma split_no_sep: "sep \<notin> set s \<Longrightarrow> split sep s = [s]"
  by (induction s) auto

lemma split_append: "sep \<notin> set a \<Longrightarrow> split sep (a @ sep # b) = a # split sep b"
  by (induction a) auto

lemma hd_split: "hd (split sep s) = takeWhile (\<lambda>c. c \<noteq> sep) s"
  by (induction s) (auto split: list.splits)

lemma split_pieces_no_sep: "p \<in> set (split sep s) \<Longrightarrow> sep \<notin> set p"
  by (induction s arbitrary: p) (auto split: list.splits if_splits)

lemma group_lines_acc:
  "group_lines ls ms cur = (ms @ fst (group_lines ls [] cur), snd (group_lines ls [] cur))"
proof (induction ls arbitrary: ms cur)
  case Nil
  then show ?case by simp
next
  case (Cons l ls)
  show ?case
  proof (cases "startswith l ''MSH|''")
    case True
    show ?thesis
      using True Cons.IH [of "ms @ [cur]" "[l]"] Cons.IH [of "[cur]" "[l]"] Cons.IH [of ms "[l]"]
      by (cases "cur = []") auto
  next
    case False
    then show ?thesis
      using Cons.IH [of ms "cur @ [l]"] by simp
  qed
qed

lemma close_Nil: "close_current ([], cur) = (if cur \<noteq> [] then [cur] else [])"
  by (simp add: close_current_def)

lemma close_header:
  "startswith l ''MSH|'' \<Longrightarrow>
   close_current (group_lines (l # ls) [] cur) =
     (if cur \<noteq> [] then [cur] else []) @ close_current (group_lines ls [] [l])"
  using group_lines_acc [of ls "[cur]" "[l]"]
  by (auto simp: close_current_def split: prod.splits)

lemma close_other:
  "\<not> startswith l ''MSH|'' \<Longrightarrow>
   close_current (group_lines (l # ls) [] cur) = close_current (group_lines ls [] (cur @ [l]))"
  by simp

lemma close_nonempty: "m \<in> set (close_current (group_lines ls [] cur)) \<Longrightarrow> m \<noteq> []"
proof (induction ls arbitrary: cur)
  case Nil
  then show ?case by (auto simp: close_Nil split: if_splits)
next
  case (Cons l ls)
  then show ?case
    by (cases "startswith l ''MSH|''") (auto simp: close_header close_other simp del: group_lines.simps split: if_splits)
qed

lemma close_concat: "concat (close_current (group_lines ls [] cur)) = cur @ ls"
proof (induction ls arbitrary: cur)
  case Nil
  then show ?case by (auto simp: close_Nil)
next
  case (Cons l ls)
  then show ?case
    by (cases "startswith l ''MSH|''") (auto simp: close_header close_other simp del: group_lines.simps)
qed

lemma close_length:
  "length (close_current (group_lines ls [] cur)) =
     length (filter (\<lambda>l. startswith l ''MSH|'') ls)
       + (if cur \<noteq> [] \<or> (ls \<noteq> [] \<and> \<not> startswith (hd ls) ''MSH|'') then 1 else 0)"
proof (induction ls arbitrary: cur)
  case Nil
  then show ?case by (auto simp: close_Nil)
next
  case (Cons l ls)
  then show ?case
    by (cases "startswith l ''MSH|''") (auto simp: close_header close_other simp del: group_lines.simps)
qed

lemma close_first:
  "cur @ ls \<noteq> [] \<Longrightarrow>
   close_current (group_lines ls [] cur) \<noteq> [] \<and>
   hd (hd (close_current (group_lines ls [] cur))) = hd (cur @ ls)"
proof (induction ls arbitrary: cur)
  case Nil
  then show ?case by (auto simp: close_Nil)
next
  case (Cons l ls)
  show ?case
  proof (cases "startswith l ''MSH|''")
    case True
    then show ?thesis
      using Cons.IH [of "[l]"]
      by (auto simp: close_header simp del: group_lines.simps)
  next
    case False
    then show ?thesis
      using Cons.IH [of "cur @ [l]"]
      by (auto simp: close_other simp del: group_lines.simps)
  qed
qed

lemma close_later:
  "m \<in> set (tl (close_current (group_lines ls [] cur))) \<Longrightarrow> startswith (hd m) ''MSH|''"
proof (induction ls arbitrary: cur)
  case Nil
  then show ?case by (auto simp: close_Nil split: if_splits)
next
  case (Cons l ls)
  show ?case
  proof (cases "startswith l ''MSH|''")
    case True
    note h = True
    show ?thesis
    proof (cases "cur = []")
      case True
      then show ?thesis
        using Cons.prems Cons.IH [of "[l]"] h
        by (auto simp: close_header simp del: group_lines.simps)
    next
      case False
      then have m: "m \<in> set (close_current (group_lines ls [] [l]))"
        using Cons.prems h by (auto simp: close_header simp del: group_lines.simps)
      have ne: "close_current (group_lines ls [] [l]) \<noteq> []"
        and first: "hd (hd (close_current (group_lines ls [] [l]))) = l"
        using close_first [of "[l]" ls] by auto
      from m ne have "m = hd (close_current (group_lines ls [] [l])) \<or>
          m \<in> set (tl (close_current (group_lines ls [] [l])))"
        by (cases "close_current (group_lines ls [] [l])") auto
      then show ?thesis
        using first h Cons.IH [of "[l]"] by auto
    qed
  next
    case False
    then show ?thesis
      using Cons.prems Cons.IH [of "cur @ [l]"]
      by (auto simp: close_other simp del: group_lines.simps)
  qed
qed

lemma extract_messages_close:
  "extract_messages content = close_current (group_lines (retained_lines content) [] [])"
  by (simp add: extract_messages_def close_current_def)

lemma header_segment_id: "startswith l ''MSH|'' \<Longrightarrow> segment_id l = ''MSH''"
proof -
  assume "startswith l ''MSH|''"
  then obtain r where "l = ''MSH'' @ CHR ''|'' # r"
    by (auto simp: startswith_def) (metis append_take_drop_id append_Cons append_Nil)
  then show ?thesis
    by (simp add: segment_id_def)
qed


subsection \<open>C1: the messages of the extractor\<close>

text \<open>
  C1, as amended. For every content: every extracted message has at least one line; every
  message after the first begins with a line that starts with \<^verbatim>\<open>MSH|\<close>, so its
  segment id is \<^verbatim>\<open>MSH\<close>; the first message begins with the first retained line,
  whatever that line is; the messages are the retained lines in their order; and the
  count of messages, which \<^verbatim>\<open>main\<close> reports in its first line of output, is the
  number of retained lines that start with \<^verbatim>\<open>MSH|\<close>, plus one when the first
  retained line is not such a line.
\<close>

theorem extract_messages_grouping:
  "(\<forall>m \<in> set (extract_messages content). m \<noteq> []) \<and>
   (\<forall>m \<in> set (tl (extract_messages content)).
      startswith (hd m) ''MSH|'' \<and> segment_id (hd m) = ''MSH'') \<and>
   (retained_lines content \<noteq> [] \<longrightarrow>
      extract_messages content \<noteq> [] \<and>
      hd (hd (extract_messages content)) = hd (retained_lines content)) \<and>
   concat (extract_messages content) = retained_lines content \<and>
   length (extract_messages content) =
     length (filter (\<lambda>l. startswith l ''MSH|'') (retained_lines content))
       + (if retained_lines content \<noteq> [] \<and> \<not> startswith (hd (retained_lines content)) ''MSH|''
          then 1 else 0) \<and>
   (fs (arg_file a) = Some content \<and> extract_messages content \<noteq> [] \<longrightarrow>
      hd (fst (main fs a)) =
        ''Found '' @ str_nat (length (filter (\<lambda>l. startswith l ''MSH|'') (retained_lines content))
            + (if \<not> startswith (hd (retained_lines content)) ''MSH|'' then 1 else 0))
          @ '' message(s)'' @ [CHR 0x0A])"
proof -
  let ?ms = "extract_messages content" and ?ls = "retained_lines content"
  have c: "?ms = close_current (group_lines ?ls [] [])"
    by (rule extract_messages_close)
  have p1: "\<forall>m \<in> set ?ms. m \<noteq> []"
    unfolding c using close_nonempty by blast
  have p2: "\<forall>m \<in> set (tl ?ms). startswith (hd m) ''MSH|'' \<and> segment_id (hd m) = ''MSH''"
    unfolding c using close_later header_segment_id by blast
  have p3: "?ls \<noteq> [] \<longrightarrow> ?ms \<noteq> [] \<and> hd (hd ?ms) = hd ?ls"
    unfolding c using close_first [of "[]" ?ls] by simp
  have p4: "concat ?ms = ?ls"
    unfolding c using close_concat [of ?ls "[]"] by simp
  have p5: "length ?ms = length (filter (\<lambda>l. startswith l ''MSH|'') ?ls)
       + (if ?ls \<noteq> [] \<and> \<not> startswith (hd ?ls) ''MSH|'' then 1 else 0)"
    unfolding c using close_length [of ?ls "[]"] by simp
  have ne: "?ms \<noteq> [] \<Longrightarrow> ?ls \<noteq> []"
    using p5 by auto
  have p6: "fs (arg_file a) = Some content \<and> ?ms \<noteq> [] \<longrightarrow>
      hd (fst (main fs a)) =
        ''Found '' @ str_nat (length (filter (\<lambda>l. startswith l ''MSH|'') ?ls)
            + (if \<not> startswith (hd ?ls) ''MSH|'' then 1 else 0))
          @ '' message(s)'' @ [CHR 0x0A]"
  proof (intro impI)
    assume h: "fs (arg_file a) = Some content \<and> ?ms \<noteq> []"
    then have "?ls \<noteq> []" using ne by simp
    then have len: "length ?ms = length (filter (\<lambda>l. startswith l ''MSH|'') ?ls)
            + (if \<not> startswith (hd ?ls) ''MSH|'' then 1 else 0)"
      using p5 by simp
    have "hd (fst (main fs a)) = ''Found '' @ str_nat (length ?ms) @ '' message(s)'' @ [CHR 0x0A]"
      using h by (simp add: main_def Let_def and_then_def printed_def)
    then show "hd (fst (main fs a)) =
        ''Found '' @ str_nat (length (filter (\<lambda>l. startswith l ''MSH|'') ?ls)
            + (if \<not> startswith (hd ?ls) ''MSH|'' then 1 else 0))
          @ '' message(s)'' @ [CHR 0x0A]"
      using len by simp
  qed
  show ?thesis
    using p1 p2 p3 p4 p5 p6 by blast
qed


theorem extract_messages_grouping_witness:
  "retained_lines (''PID|1\<newline>MSH|a\<newline>OBX|2\<newline>MSH|b'')
     = [''PID|1'', ''MSH|a'', ''OBX|2'', ''MSH|b''] \<and>
   extract_messages (''PID|1\<newline>MSH|a\<newline>OBX|2\<newline>MSH|b'')
     = [[''PID|1''], [''MSH|a'', ''OBX|2''], [''MSH|b'']] \<and>
   hd (fst (main
     [''f'' \<mapsto> ''PID|1\<newline>MSH|a\<newline>OBX|2\<newline>MSH|b'']
     \<lparr>arg_file = ''f'', arg_values = False, arg_segment = None, arg_field = None,
      arg_verify = None\<rparr>)) = ''Found 3 message(s)\<newline>''"
proof -
  let ?c = "''PID|1\<newline>MSH|a\<newline>OBX|2\<newline>MSH|b''"
  have r: "retained_lines ?c = [''PID|1'', ''MSH|a'', ''OBX|2'', ''MSH|b'']"
    by code_simp
  have e: "extract_messages ?c = [[''PID|1''], [''MSH|a'', ''OBX|2''], [''MSH|b'']]"
    by code_simp
  have n: "str_nat (Suc (Suc (Suc 0))) = ''3''"
    by (simp add: str_nat.simps)
  show ?thesis
    using extract_messages_grouping [of ?c "[''f'' \<mapsto> ?c]"
      "\<lparr>arg_file = ''f'', arg_values = False, arg_segment = None, arg_field = None,
        arg_verify = None\<rparr>"]
    by (simp add: r e n startswith_def)
qed

text \<open>C1 as stated fails on a file whose first segment line is not a header: the one
  line \<^verbatim>\<open>PID|1\<close> is a message of its own, its segment id is \<^verbatim>\<open>PID\<close>, and one
  message is counted where no header line was retained.\<close>

theorem orphan_segment_counterexample:
  "extract_messages ''PID|1'' = [[''PID|1'']] \<and>
   segment_id (hd (hd (extract_messages ''PID|1''))) = ''PID'' \<and>
   length (extract_messages ''PID|1'') = 1 \<and>
   length (filter (\<lambda>l. strip (segment_id l) = ''MSH'') (retained_lines ''PID|1'')) = 0"
  by (simp add: extract_messages_def retained_lines_def strip_rtf_def startswith_def strip_def is_space_def SEGMENT_NAMES_def segment_id_def)


subsection \<open>C3: a header code without a delimiter\<close>

text \<open>
  C3. The claim is that a line whose leading token is \<^verbatim>\<open>MSH\<close> and that has no
  \<^verbatim>\<open>|\<close> is not retained. The code retains it: \<^verbatim>\<open>MSH\<close> is a member of
  \<^const>\<open>SEGMENT_NAMES\<close>, so the first alternative of the test at line 34 holds and the
  guard on the delimiter in the second is never reached.
\<close>

theorem bare_header_line_retained:
  "retained_lines ''MSH'' = [''MSH''] \<and> extract_messages ''MSH'' = [[''MSH'']]"
  by (simp add: extract_messages_def retained_lines_def strip_rtf_def startswith_def strip_def
      is_space_def SEGMENT_NAMES_def)

subsection \<open>C8: splitting a line and joining it again\<close>

text \<open>
  C8. For every segment line that the extractor retains, joining the pieces of
  \<^verbatim>\<open>line.split("|")\<close> (the segment id and the fields, in order) with \<^verbatim>\<open>|\<close>
  gives the line back, character for character.
\<close>

theorem split_join_roundtrip:
  "line \<in> set (concat (extract_messages content)) \<Longrightarrow>
   join ''|'' (split CHR ''|'' line) = line"
  by (rule join_split)

theorem split_join_roundtrip_witness:
  "''PID|1||12345^^^MR||Doe^John'' \<in> set (concat (extract_messages ''PID|1||12345^^^MR||Doe^John'')) \<and>
   split CHR ''|'' ''PID|1||12345^^^MR||Doe^John'' = [''PID'', ''1'', [], ''12345^^^MR'', [], ''Doe^John''] \<and>
   join ''|'' (split CHR ''|'' ''PID|1||12345^^^MR||Doe^John'') = ''PID|1||12345^^^MR||Doe^John''"
proof -
  have e: "extract_messages ''PID|1||12345^^^MR||Doe^John'' = [[''PID|1||12345^^^MR||Doe^John'']]"
    by code_simp
  have m: "''PID|1||12345^^^MR||Doe^John'' \<in> set (concat (extract_messages ''PID|1||12345^^^MR||Doe^John''))"
    by (simp add: e)
  have s: "split CHR ''|'' ''PID|1||12345^^^MR||Doe^John'' = [''PID'', ''1'', [], ''12345^^^MR'', [], ''Doe^John'']"
    by simp
  show ?thesis
    using m s split_join_roundtrip [OF m] by simp
qed

subsection \<open>Runs, and the Verify view line by line\<close>

lemma and_then_printed: "and_then (printed a) r = (a @ fst r, snd r)"
  by (simp add: and_then_def printed_def)

lemma snd_and_then: "snd (and_then r s) = (case snd r of None \<Rightarrow> snd s | Some e \<Rightarrow> Some e)"
  by (simp add: and_then_def split: option.splits)

lemma run_all_returns: "(\<And>r. r \<in> set rs \<Longrightarrow> snd r = None) \<Longrightarrow> snd (run_all rs) = None"
  by (induction rs) (auto simp: snd_and_then)

lemma per_message_returns:
  assumes "\<And>line. snd (body line) = None"
  shows "snd (per_message body messages) = None"
proof -
  have inner: "snd (run_all (map body msg)) = None" for msg
    by (rule run_all_returns) (auto simp: assms)
  show ?thesis
    unfolding per_message_def
    by (rule run_all_returns) (auto simp: and_then_printed inner)
qed

lemma per_message_single: "per_message body [[line]] = body line"
  by (cases "body line") (auto simp: per_message_def and_then_def printed_def split: option.splits)

lemma py_index_in_range: "0 \<le> i \<Longrightarrow> i < int (length xs) \<Longrightarrow> py_index xs i = Inr (xs ! nat i)"
  by (simp add: py_index_def)

lemma context_parts_returns:
  "(\<And>j. j \<in> set js \<Longrightarrow> 0 \<le> j) \<Longrightarrow> \<exists>ctx. context_parts parts n js = Inr ctx"
proof (induction js)
  case Nil
  then show ?case by simp
next
  case (Cons j js)
  then obtain rest where r: "context_parts parts n js = Inr rest"
    by auto
  have "0 \<le> j" using Cons.prems by simp
  then show ?case
    using r by (auto simp: py_index_in_range)
qed

lemma verify_line_returns:
  assumes "0 \<le> n"
  shows "snd (verify_line seg n line) = None"
proof -
  let ?parts = "split CHR ''|'' line"
  obtain ctx where c: "context_parts ?parts n [max 1 (n - 2)..min (int (length ?parts) - 1 + 1) (n + 3) - 1] = Inr ctx"
    using context_parts_returns [of "[max 1 (n - 2)..min (int (length ?parts) - 1 + 1) (n + 3) - 1]" ?parts n]
    by auto
  show ?thesis
    using assms c
    by (auto simp: verify_line_def Let_def printed_def py_index_in_range)
qed

lemma and_then_assoc: "and_then (and_then a b) c = and_then a (and_then b c)"
  by (cases a, cases b) (auto simp: and_then_def split: option.splits)

lemma and_then_nothing: "and_then r ([], None) = r"
  by (cases r) (auto simp: and_then_def split: option.splits)

lemma run_all_append: "run_all (rs @ ss) = and_then (run_all rs) (run_all ss)"
proof (induction rs)
  case Nil
  then show ?case by (simp add: and_then_def)
next
  case (Cons r rs)
  then show ?case by (simp add: and_then_assoc)
qed

lemma run_all_concat: "run_all (concat rss) = run_all (map run_all rss)"
  by (induction rss) (simp_all add: run_all_append)

lemma per_message_flat:
  "per_message body messages =
     run_all (concat (map (\<lambda>(i, msg).
         printed (if length messages > 1 then [''--- Message '' @ str_nat (i + 1) @ '' ---''] else [])
           # map body msg)
       (enumerate 0 messages)))"
  by (simp add: per_message_def run_all_concat comp_def split_def)

lemma run_all_normal:
  "(\<And>r. r \<in> set rs \<Longrightarrow> snd r = None) \<Longrightarrow> run_all rs = (concat (map fst rs), None)"
proof (induction rs)
  case Nil
  then show ?case by simp
next
  case (Cons r rs)
  then have "run_all rs = (concat (map fst rs), None)" and "snd r = None"
    by auto
  then show ?case
    by (cases r) (simp add: and_then_def)
qed

lemma per_message_normal:
  assumes "\<And>line. snd (body line) = None"
  shows "per_message body messages =
     (concat (map (\<lambda>(i, msg).
         (if length messages > 1 then [''--- Message '' @ str_nat (i + 1) @ '' ---''] else [])
         @ concat (map (\<lambda>l. fst (body l)) msg))
       (enumerate 0 messages)), None)"
proof -
  have inner: "run_all (map body msg) = (concat (map (\<lambda>l. fst (body l)) msg), None)" for msg
  proof -
    have "run_all (map body msg) = (concat (map fst (map body msg)), None)"
      by (rule run_all_normal) (auto simp: assms)
    then show ?thesis
      by (simp add: comp_def)
  qed
  have "run_all (map (\<lambda>(i, msg).
         and_then
           (printed (if length messages > 1 then [''--- Message '' @ str_nat (i + 1) @ '' ---''] else []))
           (run_all (map body msg)))
       (enumerate 0 messages)) =
     (concat (map fst (map (\<lambda>(i, msg).
         and_then
           (printed (if length messages > 1 then [''--- Message '' @ str_nat (i + 1) @ '' ---''] else []))
           (run_all (map body msg)))
       (enumerate 0 messages))), None)"
    by (rule run_all_normal) (auto simp: and_then_printed inner)
  then show ?thesis
    by (simp add: per_message_def and_then_printed inner comp_def split_def)
qed

subsection \<open>C4: the shortfall that the Verify view reports\<close>

text \<open>
  C4. Let the selector ask for field \<open>total_fields + k\<close> with \<open>k \<ge> 1\<close>, and let a line
  have \<open>total_fields\<close> fields and the segment id of the selector in upper case. For this
  line the Verify view prints that the line has \<open>total_fields\<close> fields and that the
  requested field is beyond the end, and then that \<open>k\<close> more pipes are needed to reach
  the field, and nothing else. For every list of messages the output of the view is, in
  order, what it prints for each line of each message, behind the banner of the message
  when there are several; so the two lines of the report stand in the output for every
  message that has the line.
\<close>

theorem verify_shortfall:
  assumes "parse_field_spec field_spec = Some (seg_type, total_fields + k)"
    and "code_points (segment_id line) = upper seg_type"
    and "total_fields = int (length (split CHR ''|'' line)) - 1"
    and "1 \<le> k"
  shows "verify_line (upper seg_type) (total_fields + k) line =
       printed
         [''  '' @ segment_id line @ '': has '' @ str_int total_fields @ '' fields, requested field ''
            @ str_int (total_fields + k) @ '' is beyond end'',
          ''  Need '' @ str_int k @ '' more pipes to reach field '' @ str_int (total_fields + k)] \<and>
     verify_field messages field_spec =
       (concat (map (\<lambda>(i, msg).
           (if length messages > 1 then [''--- Message '' @ str_nat (i + 1) @ '' ---''] else [])
           @ concat (map (\<lambda>l. fst (verify_line (upper seg_type) (total_fields + k) l)) msg))
         (enumerate 0 messages)), None) \<and>
     (\<forall>msg \<in> set messages. line \<in> set msg \<longrightarrow>
        (\<exists>before after. fst (verify_field messages field_spec) =
           before @
           [''  '' @ segment_id line @ '': has '' @ str_int total_fields @ '' fields, requested field ''
              @ str_int (total_fields + k) @ '' is beyond end'',
            ''  Need '' @ str_int k @ '' more pipes to reach field '' @ str_int (total_fields + k)]
           @ after))"
proof -
  let ?n = "total_fields + k"
  let ?report = "[''  '' @ segment_id line @ '': has '' @ str_int total_fields @ '' fields, requested field ''
            @ str_int (total_fields + k) @ '' is beyond end'',
          ''  Need '' @ str_int k @ '' more pipes to reach field '' @ str_int (total_fields + k)]"
  let ?body = "\<lambda>l. fst (verify_line (upper seg_type) ?n l)"
  let ?block = "\<lambda>(i, msg).
           (if length messages > 1 then [''--- Message '' @ str_nat (i + 1) @ '' ---''] else [])
           @ concat (map ?body msg)"
  have l: "verify_line (upper seg_type) ?n line = printed ?report"
    using assms(2-4) by (simp add: verify_line_def Let_def segment_id_def)
  have pos: "0 \<le> ?n"
    using assms(3,4) by simp
  have v: "verify_field messages field_spec = (concat (map ?block (enumerate 0 messages)), None)"
    using assms(1) per_message_normal [of "verify_line (upper seg_type) ?n" messages]
      verify_line_returns [OF pos]
    by (simp add: verify_field_def)
  have e: "\<exists>before after. fst (verify_field messages field_spec) = before @ ?report @ after"
    if m: "msg \<in> set messages" and i: "line \<in> set msg" for msg
  proof -
    obtain a b where msg: "msg = a @ line # b"
      using i by (meson split_list)
    have "?body line = ?report"
      using l by (simp add: printed_def)
    then have inner: "concat (map ?body msg) = concat (map ?body a) @ ?report @ concat (map ?body b)"
      by (simp add: msg)
    obtain j where j: "j < length messages" and mj: "messages ! j = msg"
      using m by (metis in_set_conv_nth)
    then have "(j, msg) \<in> set (enumerate 0 messages)"
      by (auto simp: in_set_enumerate_eq)
    then obtain xs ys where en: "enumerate 0 messages = xs @ (j, msg) # ys"
      by (meson split_list)
    have "fst (verify_field messages field_spec) =
        concat (map ?block xs) @ ?block (j, msg) @ concat (map ?block ys)"
      by (simp add: v en)
    also have "?block (j, msg) =
        (if length messages > 1 then [''--- Message '' @ str_nat (j + 1) @ '' ---''] else [])
          @ concat (map ?body a) @ ?report @ concat (map ?body b)"
      using inner by simp
    finally have "fst (verify_field messages field_spec) =
        (concat (map ?block xs)
          @ (if length messages > 1 then [''--- Message '' @ str_nat (j + 1) @ '' ---''] else [])
          @ concat (map ?body a))
        @ ?report @ (concat (map ?body b) @ concat (map ?block ys))"
      by simp
    then show ?thesis
      by blast
  qed
  show ?thesis
    using l v e by blast
qed

theorem verify_shortfall_witness:
  "parse_field_spec ''RXA.20'' = Some (''RXA'', 12 + 8) \<and>
   code_points (segment_id ''RXA|0|1|20240101|20240101|08^DTaP^CVX|0.5|mL||00^New^NIP001|||'')
     = upper ''RXA'' \<and>
   int (length (split CHR ''|'' ''RXA|0|1|20240101|20240101|08^DTaP^CVX|0.5|mL||00^New^NIP001|||'')) - 1 = 12 \<and>
   verify_field
     [[''MSH|a|b'', ''PID|1'', ''RXA|0|1|20240101|20240101|08^DTaP^CVX|0.5|mL||00^New^NIP001|||'']]
     ''RXA.20'' =
     ([''  RXA: has 12 fields, requested field 20 is beyond end'',
       ''  Need 8 more pipes to reach field 20''], None)"
proof -
  let ?line = "''RXA|0|1|20240101|20240101|08^DTaP^CVX|0.5|mL||00^New^NIP001|||''"
  have p: "parse_field_spec ''RXA.20'' = Some (''RXA'', 12 + 8)"
    by (simp add: parse_field_spec_def py_int_def int_strip_def is_int_space_def decimal_def
        is_digit_def digit_value_def)
  have s: "code_points (segment_id ?line) = upper ''RXA''"
    by (simp add: segment_id_def code_points_def upper_def upper_char_def)
  have t: "12 = int (length (split CHR ''|'' ?line)) - 1"
    by simp
  have n: "str_int 12 = ''12''" "str_int 20 = ''20''" "str_int 8 = ''8''"
    by (simp_all add: str_int_def str_nat.simps)
  have o: "fst (verify_line (upper ''RXA'') 20 ''MSH|a|b'') = []"
    "fst (verify_line (upper ''RXA'') 20 ''PID|1'') = []"
    by (simp_all add: verify_line_def code_points_def upper_def upper_char_def printed_def)
  have r: "fst (verify_line (upper ''RXA'') 20 ?line) =
     [''  RXA: has 12 fields, requested field 20 is beyond end'',
      ''  Need 8 more pipes to reach field 20'']"
    using verify_shortfall [OF p s t, of "[]"] n by (simp add: segment_id_def printed_def)
  have v: "verify_field [[''MSH|a|b'', ''PID|1'', ?line]] ''RXA.20'' =
     ([''  RXA: has 12 fields, requested field 20 is beyond end'',
       ''  Need 8 more pipes to reach field 20''], None)"
    using verify_shortfall [OF p s t, of "[[''MSH|a|b'', ''PID|1'', ?line]]"] o r
    by simp
  have t': "int (length (split CHR ''|'' ?line)) - 1 = 12"
    by simp
  show ?thesis
    using p s t' v by blast
qed

subsection \<open>C9: the Verify view reads no index out of range\<close>

text \<open>
  C9. For a selector that parses to a field number \<open>n \<ge> 1\<close> and every list of messages,
  \<^verbatim>\<open>verify_field\<close> returns normally: it neither raises nor exits. For a line with
  fewer than \<open>n\<close> fields only the two lines of the shortfall are printed; otherwise
  \<open>n\<close> and every index of the context window, from \<open>max 1 (n - 2)\<close> up to but not
  including \<open>min (total + 1) (n + 3)\<close>, is an index of the list of parts.
\<close>

theorem verify_field_no_exception:
  assumes "parse_field_spec field_spec = Some (seg_type, n)" and "1 \<le> n"
  shows "snd (verify_field messages field_spec) = None \<and>
     (\<forall>line.
        (int (length (split CHR ''|'' line)) - 1 < n \<and> code_points (segment_id line) = upper seg_type \<longrightarrow>
           verify_line (upper seg_type) n line =
             printed
               [''  '' @ segment_id line @ '': has ''
                  @ str_int (int (length (split CHR ''|'' line)) - 1)
                  @ '' fields, requested field '' @ str_int n @ '' is beyond end'',
                ''  Need '' @ str_int (n - (int (length (split CHR ''|'' line)) - 1))
                  @ '' more pipes to reach field '' @ str_int n]) \<and>
        (n \<le> int (length (split CHR ''|'' line)) - 1 \<longrightarrow>
           (\<forall>j \<in> insert n (set [max 1 (n - 2)..
                min (int (length (split CHR ''|'' line)) - 1 + 1) (n + 3) - 1]).
              0 \<le> j \<and> j < int (length (split CHR ''|'' line)) \<and>
              py_index (split CHR ''|'' line) j = Inr (split CHR ''|'' line ! nat j))))"
proof -
  have r: "snd (verify_field messages field_spec) = None"
    using assms by (simp add: verify_field_def per_message_returns verify_line_returns)
  have a: "verify_line (upper seg_type) n line =
             printed
               [''  '' @ segment_id line @ '': has ''
                  @ str_int (int (length (split CHR ''|'' line)) - 1)
                  @ '' fields, requested field '' @ str_int n @ '' is beyond end'',
                ''  Need '' @ str_int (n - (int (length (split CHR ''|'' line)) - 1))
                  @ '' more pipes to reach field '' @ str_int n]"
    if "int (length (split CHR ''|'' line)) - 1 < n \<and> code_points (segment_id line) = upper seg_type" for line
    using that by (simp add: verify_line_def Let_def segment_id_def)
  have b: "0 \<le> j \<and> j < int (length (split CHR ''|'' line)) \<and>
        py_index (split CHR ''|'' line) j = Inr (split CHR ''|'' line ! nat j)"
    if "n \<le> int (length (split CHR ''|'' line)) - 1"
      and "j \<in> insert n (set [max 1 (n - 2)..
                min (int (length (split CHR ''|'' line)) - 1 + 1) (n + 3) - 1])" for line j
  proof -
    have "0 \<le> j \<and> j < int (length (split CHR ''|'' line))"
      using that assms(2) by auto
    then show ?thesis
      by (simp add: py_index_in_range)
  qed
  show ?thesis
    using r a b by blast
qed


theorem verify_field_no_exception_witness:
  "parse_field_spec ''PID.5'' = Some (''PID'', 5) \<and> (1::int) \<le> 5 \<and>
   snd (verify_field [[''MSH|^~&|A|B'', ''PID|1||12345^^^MR||Doe^John'']] ''PID.5'') = None \<and>
   py_index (split CHR ''|'' ''PID|1||12345^^^MR||Doe^John'') 5 = Inr ''Doe^John''"
proof -
  have p: "parse_field_spec ''PID.5'' = Some (''PID'', 5)"
    by (simp add: parse_field_spec_def py_int_def int_strip_def is_int_space_def decimal_def is_digit_def
        digit_value_def)
  have o: "(1::int) \<le> 5"
    by simp
  show ?thesis
    using p o verify_field_no_exception [OF p o, of "[[''MSH|^~&|A|B'', ''PID|1||12345^^^MR||Doe^John'']]"]
    by (simp add: py_index_def)
qed

subsection \<open>C7: the descriptor of a field value\<close>

lemma digit_char_mem: "k < 10 \<Longrightarrow> ''0123456789'' ! k \<in> set ''0123456789''"
  by (rule nth_mem) simp

lemma str_nat_digits: "str_nat n \<noteq> [] \<and> set (str_nat n) \<subseteq> set ''0123456789''"
proof (induction n rule: str_nat.induct)
  case (1 n)
  show ?case
  proof (cases "n < 10")
    case True
    then have "str_nat n = [''0123456789'' ! n]"
      by (subst str_nat.simps) simp
    then show ?thesis
      using digit_char_mem [OF True] by simp
  next
    case False
    then have e: "str_nat n = str_nat (n div 10) @ [''0123456789'' ! (n mod 10)]"
      by (subst str_nat.simps) simp
    have d: "''0123456789'' ! (n mod 10) \<in> set ''0123456789''"
      by (rule digit_char_mem) simp
    show ?thesis
      using False 1 d unfolding e by simp
  qed
qed

lemma describe_not_empty_marker:
  assumes "val \<noteq> []"
  shows "describe_component val \<noteq> ''(empty)''"
proof -
  have d: "hd (str_nat n @ r) \<noteq> CHR ''e''" for n r
  proof -
    have "hd (str_nat n @ r) = hd (str_nat n)"
      using str_nat_digits [of n] by simp
    moreover have "hd (str_nat n) \<in> set ''0123456789''"
      using str_nat_digits [of n] by (meson hd_in_set subsetD)
    ultimately show ?thesis
      by auto
  qed
  have e: "''('' @ str_nat n @ r \<noteq> ''(empty)''" for n r
    using d [of n r] by (cases "str_nat n @ r") auto
  show ?thesis
    using assms e by (auto simp: describe_component_def Let_def)
qed

text \<open>
  C7, as amended. \<^verbatim>\<open>describe_component\<close> gives \<^verbatim>\<open>(empty)\<close> for the empty value
  and for no other; a value that is not empty, one of whitespace only included, is
  described by the number of its non-empty components over the number of its components
  (one more than its \<^verbatim>\<open>^\<close>) when it has a \<^verbatim>\<open>^\<close>, else by the number of its
  repeats (one more than its \<^verbatim>\<open>~\<close>) when it has a \<^verbatim>\<open>~\<close>, else by its length.
\<close>

theorem describe_component_cases:
  "(val = [] \<longrightarrow> describe_component val = ''(empty)'') \<and>
   (val \<noteq> [] \<longrightarrow> describe_component val \<noteq> ''(empty)'') \<and>
   (val \<noteq> [] \<and> CHR ''^'' \<in> set val \<longrightarrow>
      describe_component val =
        ''('' @ str_nat (length (filter (\<lambda>p. p \<noteq> []) (split CHR ''^'' val)))
          @ ''/'' @ str_nat (Suc (count_list val CHR ''^'')) @ '' components)'') \<and>
   (val \<noteq> [] \<and> CHR ''^'' \<notin> set val \<and> CHR ''~'' \<in> set val \<longrightarrow>
      describe_component val = ''('' @ str_nat (Suc (count_list val CHR ''~'')) @ '' repeats)'') \<and>
   (val \<noteq> [] \<and> CHR ''^'' \<notin> set val \<and> CHR ''~'' \<notin> set val \<longrightarrow>
      describe_component val = ''(len='' @ str_nat (length val) @ '')'')"
  using describe_not_empty_marker [of val]
  by (simp add: describe_component_def Let_def length_split)

theorem describe_component_cases_witness:
  "describe_component [] = ''(empty)'' \<and>
   describe_component ''12345^^^MR'' = ''(2/4 components)'' \<and>
   describe_component ''a~b~c'' = ''(3 repeats)'' \<and>
   describe_component ''Doe'' = ''(len=3)'' \<and>
   describe_component ''  '' = ''(len=2)''"
proof -
  have n: "str_nat (Suc (Suc 0)) = ''2''" "str_nat (Suc (Suc (Suc 0))) = ''3''"
    "str_nat (Suc (Suc (Suc (Suc 0)))) = ''4''"
    by (simp_all add: str_nat.simps)
  show ?thesis
    using describe_component_cases [of "[]"] describe_component_cases [of "''12345^^^MR''"]
      describe_component_cases [of "''a~b~c''"] describe_component_cases [of "''Doe''"]
      describe_component_cases [of "''  ''"]
    by (simp add: n)
qed

text \<open>C7 as stated fails on a value of whitespace only: the descriptor tests the value
  itself, not the stripped value, and reports its length.\<close>

theorem blank_value_counterexample:
  "strip ''  '' = [] \<and> describe_component ''  '' = ''(len=2)'' \<and>
   describe_component ''  '' \<noteq> ''(empty)''"
  by (simp add: strip_def is_space_def describe_component_def str_nat.simps)

subsection \<open>C5: what of a field reaches the output of the Structure view\<close>

lemma describe_shape:
  assumes "field_shape v = field_shape w"
  shows "describe_component v = describe_component w"
proof -
  have l: "length v = length w" and c: "count_list v CHR ''^'' = count_list w CHR ''^''"
    and t: "count_list v CHR ''~'' = count_list w CHR ''~''"
    and f: "length (filter (\<lambda>p. p \<noteq> []) (split CHR ''^'' v)) =
            length (filter (\<lambda>p. p \<noteq> []) (split CHR ''^'' w))"
    using assms by (simp_all add: field_shape_def)
  have e: "v = [] \<longleftrightarrow> w = []"
    using l by auto
  have m: "CHR ''^'' \<in> set v \<longleftrightarrow> CHR ''^'' \<in> set w"
    using c by (metis count_list_0_iff)
  have r: "CHR ''~'' \<in> set v \<longleftrightarrow> CHR ''~'' \<in> set w"
    using t by (metis count_list_0_iff)
  show ?thesis
    using e m r c t f l by (simp add: describe_component_def Let_def length_split)
qed

lemma blank_shape: "field_shape v = field_shape w \<Longrightarrow> strip v = [] \<longleftrightarrow> strip w = []"
  by (simp add: field_shape_def)

lemma populated_shape:
  "map fst fs = map fst gs \<Longrightarrow> map (field_shape \<circ> snd) fs = map (field_shape \<circ> snd) gs \<Longrightarrow>
   populated seg fs = populated seg gs"
proof (induction fs arbitrary: gs)
  case Nil
  then show ?case by simp
next
  case (Cons f fs)
  then obtain g gs' where g: "gs = g # gs'"
    by (cases gs) auto
  obtain j v where f: "f = (j, v)" by (cases f)
  obtain k w where k: "g = (k, w)" by (cases g)
  have jk: "j = k" and sh: "field_shape v = field_shape w"
    using Cons.prems g f k by auto
  have rest: "populated seg fs = populated seg gs'"
    using Cons.IH [of gs'] Cons.prems g by simp
  show ?case
    using rest jk describe_shape [OF sh] blank_shape [OF sh] by (auto simp: g f k)
qed

lemma map_fst_enumerate: "map fst (enumerate n xs) = [n..<n + length xs]"
  by (simp add: enumerate_eq_zip)

lemma map_snd_enumerate: "map snd (enumerate n xs) = xs"
  by (simp add: enumerate_eq_zip)

lemma structure_line_shape:
  assumes "line_shape l1 = line_shape l2"
  shows "structure_line l1 = structure_line l2"
proof -
  let ?p1 = "split CHR ''|'' l1" and ?p2 = "split CHR ''|'' l2"
  have h: "hd ?p1 = hd ?p2" and t: "map field_shape (tl ?p1) = map field_shape (tl ?p2)"
    using assms by (simp_all add: line_shape_def segment_id_def)
  have lt: "length (tl ?p1) = length (tl ?p2)"
    using t by (metis length_map)
  then have len: "length ?p1 - 1 = length ?p2 - 1"
    by simp
  have "populated (hd ?p1) (enumerate 1 (tl ?p1)) = populated (hd ?p1) (enumerate 1 (tl ?p2))"
  proof (rule populated_shape)
    show "map fst (enumerate 1 (tl ?p1)) = map fst (enumerate 1 (tl ?p2))"
      using lt by (simp only: map_fst_enumerate)
    show "map (field_shape \<circ> snd) (enumerate 1 (tl ?p1)) = map (field_shape \<circ> snd) (enumerate 1 (tl ?p2))"
      using t by (simp only: map_map [symmetric] map_snd_enumerate)
  qed
  then show ?thesis
    using h len by (simp add: structure_line_def Let_def drop_Suc)
qed

lemma structure_lines_shape:
  "map line_shape a = map line_shape b \<Longrightarrow> map structure_line a = map structure_line b"
proof (induction a arbitrary: b)
  case Nil
  then show ?case by simp
next
  case (Cons x a)
  then obtain y b' where "b = y # b'"
    by (cases b) auto
  then show ?case
    using Cons structure_line_shape [of x y] by auto
qed

lemma map_enumerate_cong:
  assumes "length xs = length ys"
    and "\<And>i. i < length xs \<Longrightarrow> f (n + i) (xs ! i) = g (n + i) (ys ! i)"
  shows "map (\<lambda>(i, x). f i x) (enumerate n xs) = map (\<lambda>(i, y). g i y) (enumerate n ys)"
proof (rule nth_equalityI)
  show "length (map (\<lambda>(i, x). f i x) (enumerate n xs)) = length (map (\<lambda>(i, y). g i y) (enumerate n ys))"
    using assms(1) by simp
next
  fix i assume "i < length (map (\<lambda>(i, x). f i x) (enumerate n xs))"
  then have i: "i < length xs" by simp
  then have j: "i < length ys" using assms(1) by simp
  show "map (\<lambda>(i, x). f i x) (enumerate n xs) ! i = map (\<lambda>(i, y). g i y) (enumerate n ys) ! i"
    using i j assms(2) [OF i] by (simp add: nth_enumerate_eq)
qed

text \<open>
  C5, as amended. The output of the Structure view is a function of the shapes of the
  lines: of each line its segment id and, for each field, whether the field is blank, its
  length and its counts of \<^verbatim>\<open>^\<close>, of non-empty components and of \<^verbatim>\<open>~\<close>. Two
  lists of messages with the same shapes give the same output, and so do two files whose
  messages have the same shapes when \<^verbatim>\<open>main\<close> runs the Structure view. Nothing else
  of a field value reaches the output.
\<close>

theorem structure_view_shape_only:
  assumes "map (map line_shape) ms1 = map (map line_shape) ms2"
  shows "show_structure ms1 = show_structure ms2 \<and>
     (fs1 (arg_file a) = Some c1 \<and> fs2 (arg_file a) = Some c2 \<and>
      extract_messages c1 = ms1 \<and> extract_messages c2 = ms2 \<and>
      given (arg_verify a) = None \<and> given (arg_field a) = None \<and> \<not> arg_values a \<longrightarrow>
      main fs1 a = main fs2 a)"
proof -
  have len: "length ms1 = length ms2"
    using assms by (metis length_map)
  have lines: "map structure_line (ms1 ! i) = map structure_line (ms2 ! i)" if "i < length ms1" for i
  proof -
    have "map line_shape (ms1 ! i) = map line_shape (ms2 ! i)"
      using assms len that by (metis nth_map)
    then show ?thesis
      by (rule structure_lines_shape)
  qed
  have view: "show_structure ms1 = show_structure ms2"
    unfolding show_structure_def
    by (rule arg_cong [where f = concat], rule map_enumerate_cong) (simp_all add: len lines)
  have none: "ms1 = [] \<longleftrightarrow> ms2 = []"
    using len by auto
  have "main fs1 a = main fs2 a"
    if "fs1 (arg_file a) = Some c1 \<and> fs2 (arg_file a) = Some c2 \<and>
      extract_messages c1 = ms1 \<and> extract_messages c2 = ms2 \<and>
      given (arg_verify a) = None \<and> given (arg_field a) = None \<and> \<not> arg_values a"
    using that view len none by (simp add: main_def Let_def)
  then show ?thesis
    using view by blast
qed

theorem structure_view_shape_only_witness:
  "map (map line_shape) [[''PID|1||12345^^^MR||Doe^John'']] =
     map (map line_shape) [[''PID|7||99999^^^ZZ||Roe^Jane'']] \<and>
   show_structure [[''PID|1||12345^^^MR||Doe^John'']] =
     show_structure [[''PID|7||99999^^^ZZ||Roe^Jane'']] \<and>
   show_structure [[''PID|7||99999^^^ZZ||Roe^Jane'']] =
     [''  PID (5 fields) populated: 1(len=1), 3(2/4 components), 5(2/2 components)'']"
proof -
  have h: "map (map line_shape) [[''PID|1||12345^^^MR||Doe^John'']] =
     map (map line_shape) [[''PID|7||99999^^^ZZ||Roe^Jane'']]"
    by (simp add: line_shape_def field_shape_def segment_id_def strip_def is_space_def)
  have v: "show_structure [[''PID|7||99999^^^ZZ||Roe^Jane'']] =
     [''  PID (5 fields) populated: 1(len=1), 3(2/4 components), 5(2/2 components)'']"
    by code_simp
  show ?thesis
    using h v structure_view_shape_only [OF h] by blast
qed

text \<open>C5 as stated, that no field value occurs in the output as a substring, fails where
  a value happens to be a piece of the fixed text of the output: the value
  \<^verbatim>\<open>fields\<close> occurs in the line printed for \<^verbatim>\<open>PID|fields\<close>.\<close>

theorem template_text_counterexample:
  "tl (split CHR ''|'' ''PID|fields'') = [''fields''] \<and>
   show_structure (extract_messages ''PID|fields'') =
     [''  PID (1 '' @ ''fields'' @ '') populated: 1(len=6)'']"
  by code_simp

subsection \<open>C2: field 1 of the header segment\<close>

lemma split_join:
  "ps \<noteq> [] \<Longrightarrow> (\<And>p. p \<in> set ps \<Longrightarrow> sep \<notin> set p) \<Longrightarrow> split sep (join [sep] ps) = ps"
proof (induction ps)
  case Nil
  then show ?case by simp
next
  case (Cons p ps)
  show ?case
  proof (cases ps)
    case Nil
    then show ?thesis
      using Cons.prems by (simp add: split_no_sep)
  next
    case (Cons q qs)
    have "split sep (join [sep] ps) = ps"
      using Cons.IH Cons.prems Cons by simp
    moreover have "sep \<notin> set p"
      using Cons.prems by simp
    ultimately show ?thesis
      using Cons by (simp add: split_append)
  qed
qed

lemma str_int_1: "str_int 1 = ''1''"
  by (simp add: str_int_def str_nat.simps)

text \<open>
  C2, as amended. Take a line \<^verbatim>\<open>MSH|v|...\<close> with any text \<open>v\<close> as field 1. The
  Structure view never lists field 1 as populated: its output for the line does not
  depend on \<open>v\<close>. The Values view prints the placeholder \<^verbatim>\<open>(encoding chars)\<close> for
  field 1 and its output for the line does not depend on \<open>v\<close> either. The Field view and
  the Verify view have no such case: asked for field 1 of \<^verbatim>\<open>MSH\<close> they print \<open>v\<close>
  as it is (the Field view unless \<open>v\<close> is a list of repeats with no component, which it
  prints one by one).
\<close>

theorem header_field_one:
  assumes "CHR ''|'' \<notin> set v" and "\<forall>f \<in> set others. CHR ''|'' \<notin> set f"
  shows "structure_line (join ''|'' (''MSH'' # v # others)) =
       ''  MSH ('' @ str_nat (Suc (length others)) @ '' fields) populated: ''
         @ join '', '' (populated ''MSH'' (enumerate 2 others)) \<and>
     (flt = None \<or> flt = Some ''MSH'' \<longrightarrow>
        values_line flt (join ''|'' (''MSH'' # v # others)) =
          ''  MSH:'' # ''    Field 1: (encoding chars)'' # values_fields ''MSH'' (enumerate 2 others)) \<and>
     (strip v \<noteq> [] \<and> (CHR ''^'' \<in> set v \<or> CHR ''~'' \<notin> set v) \<longrightarrow>
        hd (fst (field_line (code_points ''MSH'') 1 (join ''|'' (''MSH'' # v # others)))) = ''  MSH-1: '' @ v) \<and>
     (strip v \<noteq> [] \<longrightarrow>
        hd (fst (verify_line (code_points ''MSH'') 1 (join ''|'' (''MSH'' # v # others)))) =
          ''  MSH ('' @ str_int (1 + int (length others)) @ '' fields total), field 1 = '' @ v)"
proof -
  let ?line = "join ''|'' (''MSH'' # v # others)"
  have parts: "split CHR ''|'' ?line = ''MSH'' # v # others"
    using assms by (intro split_join) auto
  have a: "structure_line ?line =
       ''  MSH ('' @ str_nat (Suc (length others)) @ '' fields) populated: ''
         @ join '', '' (populated ''MSH'' (enumerate 2 others))"
    unfolding structure_line_def parts by (simp add: Let_def numeral_2_eq_2)
  have b: "values_line flt ?line =
          ''  MSH:'' # ''    Field 1: (encoding chars)'' # values_fields ''MSH'' (enumerate 2 others)"
    if "flt = None \<or> flt = Some ''MSH''"
    using that unfolding values_line_def parts
    by (auto simp: Let_def numeral_2_eq_2 str_nat.simps)
  have c: "hd (fst (field_line (code_points ''MSH'') 1 ?line)) = ''  MSH-1: '' @ v"
    if "strip v \<noteq> [] \<and> (CHR ''^'' \<in> set v \<or> CHR ''~'' \<notin> set v)"
    using that unfolding field_line_def parts
    by (auto simp: Let_def py_index_def printed_def str_int_1)
  have ctx: "\<exists>c. context_parts (''MSH'' # v # others) 1 [1..min (1 + int (length others) + 1) 4 - 1] = Inr c"
    by (rule context_parts_returns) auto
  have d: "hd (fst (verify_line (code_points ''MSH'') 1 ?line)) =
          ''  MSH ('' @ str_int (1 + int (length others)) @ '' fields total), field 1 = '' @ v"
    if "strip v \<noteq> []"
    using that ctx unfolding verify_line_def parts
    by (auto simp: Let_def py_index_def printed_def str_int_1)
  show ?thesis
    using a b c d by blast
qed

theorem header_field_one_witness:
  "CHR ''|'' \<notin> set [CHR ''^'', CHR ''~'', CHR 0x5C, CHR ''&''] \<and>
   structure_line (join ''|'' [''MSH'', [CHR ''^'', CHR ''~'', CHR 0x5C, CHR ''&''], ''A'', ''B'']) =
     ''  MSH (3 fields) populated: 2(len=1), 3(len=1)'' \<and>
   values_line None (join ''|'' [''MSH'', [CHR ''^'', CHR ''~'', CHR 0x5C, CHR ''&''], ''A'', ''B'']) =
     [''  MSH:'', ''    Field 1: (encoding chars)'', ''    Field 2: A'', ''    Field 3: B''] \<and>
   hd (fst (field_line (code_points ''MSH'') 1
     (join ''|'' [''MSH'', [CHR ''^'', CHR ''~'', CHR 0x5C, CHR ''&''], ''A'', ''B'']))) =
     ''  MSH-1: '' @ [CHR ''^'', CHR ''~'', CHR 0x5C, CHR ''&'']"
proof -
  have a1: "CHR ''|'' \<notin> set [CHR ''^'', CHR ''~'', CHR 0x5C, CHR ''&'']"
    by simp
  have a2: "\<forall>f \<in> set [''A'', ''B'']. CHR ''|'' \<notin> set f"
    by simp
  have n: "str_nat (Suc (Suc 0)) = ''2''" "str_nat (Suc (Suc (Suc 0))) = ''3''" "str_nat (Suc 0) = ''1''"
    by (simp_all add: str_nat.simps)
  have e: "enumerate 2 [''A'', ''B''] = [(2, ''A''), (3, ''B'')]"
    by simp
  have p: "populated ''MSH'' [(2, ''A''), (3, ''B'')] = [''2(len=1)'', ''3(len=1)'']"
    by (simp add: strip_def is_space_def describe_component_def str_nat.simps)
  have f: "values_fields ''MSH'' [(2, ''A''), (3, ''B'')] = [''    Field 2: A'', ''    Field 3: B'']"
    by (simp add: strip_def is_space_def str_nat.simps)
  have s: "strip [CHR ''^'', CHR ''~'', CHR 0x5C, CHR ''&''] \<noteq> []"
    by (simp add: strip_def is_space_def)
  show ?thesis
    using header_field_one [OF a1 a2, of None] s
    by (simp only: e p f n a1 list.size length_Cons) (simp add: n)
qed

text \<open>C2 as stated fails in the Field view: \<^verbatim>\<open>--field MSH.1\<close> prints the encoding
  characters themselves.\<close>

theorem field_view_header_counterexample:
  "segment_id [CHR ''M'', CHR ''S'', CHR ''H'', CHR ''|'', CHR ''^'', CHR ''~'', CHR 0x5C, CHR ''&'', CHR ''|'', CHR ''A''] = ''MSH'' \<and>
   split CHR ''|'' [CHR ''M'', CHR ''S'', CHR ''H'', CHR ''|'', CHR ''^'', CHR ''~'', CHR 0x5C, CHR ''&'', CHR ''|'', CHR ''A''] ! 1
     = [CHR ''^'', CHR ''~'', CHR 0x5C, CHR ''&''] \<and>
   show_field [[[CHR ''M'', CHR ''S'', CHR ''H'', CHR ''|'', CHR ''^'', CHR ''~'', CHR 0x5C, CHR ''&'', CHR ''|'', CHR ''A'']]] ''MSH.1'' =
     printed [''  MSH-1: '' @ [CHR ''^'', CHR ''~'', CHR 0x5C, CHR ''&''],
              ''    .1: (empty)'',
              ''    .2: '' @ [CHR ''~'', CHR 0x5C, CHR ''&'']]"
  by code_simp

subsection \<open>C10: the segment filter is not put in upper case\<close>

lemma set_dropWhile_cases: "x \<in> set xs \<Longrightarrow> P x \<or> x \<in> set (dropWhile P xs)"
  by (induction xs) auto

lemma set_strip_cases: "c \<in> set s \<Longrightarrow> is_space c \<or> c \<in> set (strip s)"
proof -
  assume c: "c \<in> set s"
  show ?thesis
  proof (cases "is_space c")
    case True
    then show ?thesis by simp
  next
    case False
    then have "c \<in> set (dropWhile is_space s)"
      using c set_dropWhile_cases [of c s is_space] by simp
    then have "c \<in> set (rev (dropWhile is_space s))"
      by simp
    then have "c \<in> set (dropWhile is_space (rev (dropWhile is_space s)))"
      using False set_dropWhile_cases [of c "rev (dropWhile is_space s)" is_space] by blast
    then show ?thesis
      by (simp add: strip_def)
  qed
qed

lemma segment_lines_recognised:
  "line \<in> set (segment_lines raws) \<Longrightarrow> strip (segment_id line) \<in> SEGMENT_NAMES"
proof (induction raws)
  case Nil
  then show ?case by simp
next
  case (Cons raw raws)
  have m: "''MSH'' \<in> SEGMENT_NAMES"
    by (simp add: SEGMENT_NAMES_def)
  show ?case
    using Cons m by (auto simp: Let_def segment_id_def split: if_splits)
qed

lemma names_all_upper: "\<forall>s \<in> SEGMENT_NAMES. \<forall>c \<in> set s. \<not> is_lower c"
  by (simp add: SEGMENT_NAMES_def is_lower_def)

lemma names_upper_case: "s \<in> SEGMENT_NAMES \<Longrightarrow> c \<in> set s \<Longrightarrow> \<not> is_lower c"
  using names_all_upper by blast

lemma space_not_lower: "is_space c \<Longrightarrow> \<not> is_lower c"
  by (auto simp: is_space_def is_lower_def)

lemma retained_segment_id_no_lower:
  assumes "line \<in> set (retained_lines content)" and "c \<in> set (segment_id line)"
  shows "\<not> is_lower c"
proof -
  have r: "strip (segment_id line) \<in> SEGMENT_NAMES"
    using assms(1) by (simp add: retained_lines_def segment_lines_recognised)
  from assms(2) have "is_space c \<or> c \<in> set (strip (segment_id line))"
    by (rule set_strip_cases)
  then show ?thesis
    using r names_upper_case space_not_lower by blast
qed

lemma extracted_lines_retained:
  "msg \<in> set (extract_messages content) \<Longrightarrow> line \<in> set msg \<Longrightarrow> line \<in> set (retained_lines content)"
proof -
  assume "msg \<in> set (extract_messages content)" and "line \<in> set msg"
  then have "line \<in> set (concat (extract_messages content))"
    by auto
  then show ?thesis
    using close_concat [of "retained_lines content" "[]"] by (simp add: extract_messages_close)
qed

lemma field_line_matched: "code_points (segment_id line) = seg \<Longrightarrow> field_line seg n line \<noteq> printed []"
  by (auto simp: field_line_def Let_def printed_def segment_id_def split: sum.splits)

lemma verify_line_matched: "code_points (segment_id line) = seg \<Longrightarrow> verify_line seg n line \<noteq> printed []"
  by (auto simp: verify_line_def Let_def printed_def segment_id_def split: sum.splits)

lemma field_line_returns: "0 \<le> n \<Longrightarrow> snd (field_line seg n line) = None"
  by (auto simp: field_line_def Let_def printed_def py_index_def)

lemma field_line_passed_over:
  "field_line seg n line = printed [] \<longleftrightarrow> code_points (segment_id line) \<noteq> seg"
  using field_line_matched [of line seg n]
  by (auto simp: field_line_def Let_def segment_id_def)

lemma verify_line_passed_over:
  "verify_line seg n line = printed [] \<longleftrightarrow> code_points (segment_id line) \<noteq> seg"
  using verify_line_matched [of line seg n]
  by (auto simp: verify_line_def Let_def segment_id_def)

text \<open>
  C10. Let the argument contain a lower-case letter. As the filter of the Values view it
  is compared with the segment id as it is: a line is printed exactly when its segment id
  equals the argument, no line that the extractor retains is printed, and for every file
  the Values view prints nothing but the banners and the empty lines of the messages. As
  the segment id of a \<^verbatim>\<open>--field\<close> or \<^verbatim>\<open>--verify\<close> selector it is put in upper
  case first: the body of the view passes a line over exactly when the segment id of the
  line is not the argument in upper case, and for every list of messages the view is the
  run, in order, of the banner of each message and of that body on each of its lines. So a
  line of a file whose segment id is the argument in upper case is left out by the Values
  view and matched by the Field and the Verify view.
\<close>

theorem segment_filter_case_sensitive:
  assumes "\<exists>c \<in> set flt. is_lower c"
  shows "(values_line (Some flt) line \<noteq> [] \<longleftrightarrow> segment_id line = flt) \<and>
     (\<forall>msg \<in> set (extract_messages content). \<forall>l \<in> set msg. values_line (Some flt) l = []) \<and>
     show_values (extract_messages content) (Some flt) =
       concat (map (\<lambda>(i, msg).
           if length (extract_messages content) > 1
           then [''=== Message '' @ str_nat (i + 1) @ '' of ''
                   @ str_nat (length (extract_messages content)) @ '' ==='', []]
           else [])
         (enumerate 0 (extract_messages content))) \<and>
     (field_line (upper flt) n line = printed [] \<longleftrightarrow> code_points (segment_id line) \<noteq> upper flt) \<and>
     (verify_line (upper flt) n line = printed [] \<longleftrightarrow> code_points (segment_id line) \<noteq> upper flt) \<and>
     (parse_field_spec field_spec = Some (flt, n) \<longrightarrow>
        show_field messages field_spec =
          run_all (concat (map (\<lambda>(i, msg).
              printed (if length messages > 1 then [''--- Message '' @ str_nat (i + 1) @ '' ---''] else [])
                # map (field_line (upper flt) n) msg)
            (enumerate 0 messages))) \<and>
        verify_field messages field_spec =
          run_all (concat (map (\<lambda>(i, msg).
              printed (if length messages > 1 then [''--- Message '' @ str_nat (i + 1) @ '' ---''] else [])
                # map (verify_line (upper flt) n) msg)
            (enumerate 0 messages)))) \<and>
     (parse_field_spec field_spec = Some (flt, n) \<and> 0 \<le> n \<longrightarrow>
        show_field messages field_spec =
          (concat (map (\<lambda>(i, msg).
              (if length messages > 1 then [''--- Message '' @ str_nat (i + 1) @ '' ---''] else [])
              @ concat (map (\<lambda>l. fst (field_line (upper flt) n l)) msg))
            (enumerate 0 messages)), None) \<and>
        verify_field messages field_spec =
          (concat (map (\<lambda>(i, msg).
              (if length messages > 1 then [''--- Message '' @ str_nat (i + 1) @ '' ---''] else [])
              @ concat (map (\<lambda>l. fst (verify_line (upper flt) n l)) msg))
            (enumerate 0 messages)), None)) \<and>
     (\<forall>msg \<in> set (extract_messages content). \<forall>l \<in> set msg.
        code_points (segment_id l) = upper flt \<longrightarrow>
          values_line (Some flt) l = [] \<and>
          field_line (upper flt) n l \<noteq> printed [] \<and>
          verify_line (upper flt) n l \<noteq> printed [])"
proof -
  let ?ms = "extract_messages content"
  have ne: "flt \<noteq> []"
    using assms by auto
  have a: "values_line (Some flt) line \<noteq> [] \<longleftrightarrow> segment_id line = flt"
    using ne by (simp add: values_line_def Let_def segment_id_def)
  have b: "values_line (Some flt) l = []"
    if "msg \<in> set ?ms" and "l \<in> set msg" for msg l
  proof -
    have "l \<in> set (retained_lines content)"
      using that by (rule extracted_lines_retained)
    then have "\<forall>c \<in> set (segment_id l). \<not> is_lower c"
      using retained_segment_id_no_lower by blast
    then have "segment_id l \<noteq> flt"
      using assms by blast
    then show ?thesis
      using ne by (simp add: values_line_def Let_def segment_id_def)
  qed
  have blocks: "concat (map (values_line (Some flt)) (?ms ! i)) = []" if "i < length ?ms" for i
    using that b [of "?ms ! i"] by simp
  have b2: "show_values ?ms (Some flt) =
       concat (map (\<lambda>(i, msg).
           if length ?ms > 1
           then [''=== Message '' @ str_nat (i + 1) @ '' of '' @ str_nat (length ?ms) @ '' ==='', []]
           else [])
         (enumerate 0 ?ms))"
    unfolding show_values_def
    by (rule arg_cong [where f = concat], rule map_enumerate_cong) (simp_all add: blocks)
  have c: "field_line (upper flt) n line = printed [] \<longleftrightarrow> code_points (segment_id line) \<noteq> upper flt"
    by (rule field_line_passed_over)
  have c': "verify_line (upper flt) n line = printed [] \<longleftrightarrow> code_points (segment_id line) \<noteq> upper flt"
    by (rule verify_line_passed_over)
  have d: "show_field messages field_spec =
          run_all (concat (map (\<lambda>(i, msg).
              printed (if length messages > 1 then [''--- Message '' @ str_nat (i + 1) @ '' ---''] else [])
                # map (field_line (upper flt) n) msg)
            (enumerate 0 messages))) \<and>
        verify_field messages field_spec =
          run_all (concat (map (\<lambda>(i, msg).
              printed (if length messages > 1 then [''--- Message '' @ str_nat (i + 1) @ '' ---''] else [])
                # map (verify_line (upper flt) n) msg)
            (enumerate 0 messages)))"
    if "parse_field_spec field_spec = Some (flt, n)"
    using that by (simp add: show_field_def verify_field_def per_message_flat)
  have d2: "show_field messages field_spec =
          (concat (map (\<lambda>(i, msg).
              (if length messages > 1 then [''--- Message '' @ str_nat (i + 1) @ '' ---''] else [])
              @ concat (map (\<lambda>l. fst (field_line (upper flt) n l)) msg))
            (enumerate 0 messages)), None) \<and>
        verify_field messages field_spec =
          (concat (map (\<lambda>(i, msg).
              (if length messages > 1 then [''--- Message '' @ str_nat (i + 1) @ '' ---''] else [])
              @ concat (map (\<lambda>l. fst (verify_line (upper flt) n l)) msg))
            (enumerate 0 messages)), None)"
    if "parse_field_spec field_spec = Some (flt, n) \<and> 0 \<le> n"
    using that per_message_normal [of "field_line (upper flt) n" messages]
      per_message_normal [of "verify_line (upper flt) n" messages]
      field_line_returns [of n] verify_line_returns [of n]
    by (simp add: show_field_def verify_field_def)
  have e: "values_line (Some flt) l = [] \<and>
          field_line (upper flt) n l \<noteq> printed [] \<and>
          verify_line (upper flt) n l \<noteq> printed []"
    if "msg \<in> set ?ms" and "l \<in> set msg" and "code_points (segment_id l) = upper flt" for msg l
    using that b [of msg l] field_line_passed_over [of "upper flt" n l]
      verify_line_passed_over [of "upper flt" n l]
    by simp
  show ?thesis
    using a b b2 c c' d d2 e by blast
qed

theorem segment_filter_case_sensitive_witness:
  "is_lower CHR ''p'' \<and> upper ''pid'' = code_points ''PID'' \<and>
   extract_messages ''MSH|a\<newline>PID|1||x\<newline>OBX|1|2|3'' = [[''MSH|a'', ''PID|1||x'', ''OBX|1|2|3'']] \<and>
   show_values (extract_messages ''MSH|a\<newline>PID|1||x\<newline>OBX|1|2|3'') (Some ''pid'') = [] \<and>
   show_values (extract_messages ''MSH|a\<newline>PID|1||x\<newline>OBX|1|2|3'') (Some ''PID'') =
     [''  PID:'', ''    Field 1: 1'', ''    Field 3: x''] \<and>
   parse_field_spec ''pid.3'' = Some (''pid'', 3) \<and>
   show_field (extract_messages ''MSH|a\<newline>PID|1||x\<newline>OBX|1|2|3'') ''pid.3'' =
     ([''  PID-3: x''], None) \<and>
   verify_field (extract_messages ''MSH|a\<newline>PID|1||x\<newline>OBX|1|2|3'') ''pid.3'' =
     ([''  PID (3 fields total), field 3 = x'', ''  Context:'',
       ''    Field 1: 1\<newline>    Field 2: (empty)\<newline>    Field 3: x <<< ''], None)"
proof -
  let ?c = "''MSH|a\<newline>PID|1||x\<newline>OBX|1|2|3''"
  have l: "\<exists>c \<in> set ''pid''. is_lower c"
    by (simp add: is_lower_def)
  have u: "upper ''pid'' = code_points ''PID''"
    by (simp add: upper_def upper_char_def code_points_def)
  have e: "extract_messages ?c = [[''MSH|a'', ''PID|1||x'', ''OBX|1|2|3'']]"
    by code_simp
  have p: "parse_field_spec ''pid.3'' = Some (''pid'', 3)"
    by (simp add: parse_field_spec_def py_int_def int_strip_def is_int_space_def decimal_def
        is_digit_def digit_value_def)
  have f: "field_line (upper ''pid'') 3 ''MSH|a'' = ([], None)"
    "field_line (upper ''pid'') 3 ''PID|1||x'' = ([''  PID-3: x''], None)"
    "field_line (upper ''pid'') 3 ''OBX|1|2|3'' = ([], None)"
    by code_simp+
  have g: "verify_line (upper ''pid'') 3 ''MSH|a'' = ([], None)"
    "verify_line (upper ''pid'') 3 ''PID|1||x'' =
       ([''  PID (3 fields total), field 3 = x'', ''  Context:'',
         ''    Field 1: 1\<newline>    Field 2: (empty)\<newline>    Field 3: x <<< ''], None)"
    "verify_line (upper ''pid'') 3 ''OBX|1|2|3'' = ([], None)"
    by code_simp+
  have v: "show_values [[''MSH|a'', ''PID|1||x'', ''OBX|1|2|3'']] (Some ''PID'') =
      [''  PID:'', ''    Field 1: 1'', ''    Field 3: x'']"
    by code_simp
  note t = segment_filter_case_sensitive [OF l, of "''PID|1||x''" ?c 3 "''pid.3''"
      "[[''MSH|a'', ''PID|1||x'', ''OBX|1|2|3'']]"]
  have w: "show_values (extract_messages ?c) (Some ''pid'') = []"
    using t by (simp add: e)
  have sf: "show_field (extract_messages ?c) ''pid.3'' = ([''  PID-3: x''], None)"
    using t p by (simp add: e f and_then_def printed_def)
  have vf: "verify_field (extract_messages ?c) ''pid.3'' =
     ([''  PID (3 fields total), field 3 = x'', ''  Context:'',
       ''    Field 1: 1\<newline>    Field 2: (empty)\<newline>    Field 3: x <<< ''], None)"
    using t p by (simp add: e g and_then_def printed_def)
  have "is_lower CHR ''p''"
    by (simp add: is_lower_def)
  then show ?thesis
    using u e p v w sf vf by simp
qed

subsection \<open>C6: the exit status\<close>

lemma split_two_iff:
  "split sep s = [a, b] \<longleftrightarrow> s = a @ sep # b \<and> sep \<notin> set a \<and> sep \<notin> set b"
proof
  assume h: "split sep s = [a, b]"
  have "join [sep] (split sep s) = s"
    by (rule join_split)
  then have s: "s = a @ sep # b"
    using h by simp
  have "sep \<notin> set a" "sep \<notin> set b"
    using split_pieces_no_sep [of a sep s] split_pieces_no_sep [of b sep s] h by auto
  then show "s = a @ sep # b \<and> sep \<notin> set a \<and> sep \<notin> set b"
    using s by simp
next
  assume "s = a @ sep # b \<and> sep \<notin> set a \<and> sep \<notin> set b"
  then show "split sep s = [a, b]"
    by (simp add: split_append split_no_sep)
qed

lemma parse_field_spec_Some_iff:
  "parse_field_spec field_spec = Some (seg, n) \<longleftrightarrow>
     (\<exists>num. field_spec = seg @ CHR ''.'' # num \<and> CHR ''.'' \<notin> set seg \<and> CHR ''.'' \<notin> set num \<and>
        py_int num = Some n)"
proof
  assume h: "parse_field_spec field_spec = Some (seg, n)"
  then obtain num where s: "split CHR ''.'' field_spec = [seg, num]" and i: "py_int num = Some n"
    by (auto simp: parse_field_spec_def split: list.splits option.splits)
  then show "\<exists>num. field_spec = seg @ CHR ''.'' # num \<and> CHR ''.'' \<notin> set seg \<and> CHR ''.'' \<notin> set num \<and>
        py_int num = Some n"
    using split_two_iff [of "CHR ''.''" field_spec seg num] by auto
next
  assume "\<exists>num. field_spec = seg @ CHR ''.'' # num \<and> CHR ''.'' \<notin> set seg \<and> CHR ''.'' \<notin> set num \<and>
        py_int num = Some n"
  then obtain num where "split CHR ''.'' field_spec = [seg, num]" and "py_int num = Some n"
    using split_two_iff by blast
  then show "parse_field_spec field_spec = Some (seg, n)"
    by (simp add: parse_field_spec_def)
qed

lemma show_field_returns:
  "parse_field_spec field_spec = Some (seg, n) \<Longrightarrow> 0 \<le> n \<Longrightarrow> snd (show_field messages field_spec) = None"
  by (simp add: show_field_def per_message_returns field_line_returns)

lemma verify_field_returns:
  "parse_field_spec field_spec = Some (seg, n) \<Longrightarrow> 0 \<le> n \<Longrightarrow> snd (verify_field messages field_spec) = None"
  by (simp add: verify_field_def per_message_returns verify_line_returns)

lemma show_field_exits:
  "parse_field_spec field_spec = None \<Longrightarrow> snd (show_field messages field_spec) = Some (SysExit 1)"
  by (simp add: show_field_def)

lemma verify_field_exits:
  "parse_field_spec field_spec = None \<Longrightarrow> snd (verify_field messages field_spec) = Some (SysExit 1)"
  by (simp add: verify_field_def)

lemma snd_main_found:
  "fs (arg_file a) = Some content \<Longrightarrow> extract_messages content \<noteq> [] \<Longrightarrow>
   snd (main fs a) =
     (case given (arg_verify a) of
        Some v \<Rightarrow> snd (verify_field (extract_messages content) v)
      | None \<Rightarrow>
          (case given (arg_field a) of
             Some f \<Rightarrow> snd (show_field (extract_messages content) f)
           | None \<Rightarrow> None))"
  by (simp add: main_def Let_def and_then_def printed_def split: option.splits)

lemma fst_main_found:
  "fs (arg_file a) = Some content \<Longrightarrow> extract_messages content \<noteq> [] \<Longrightarrow>
   fst (main fs a) =
     (''Found '' @ str_nat (length (extract_messages content)) @ '' message(s)\<newline>'') #
     (case given (arg_verify a) of
        Some v \<Rightarrow> fst (verify_field (extract_messages content) v)
      | None \<Rightarrow>
          (case given (arg_field a) of
             Some f \<Rightarrow> fst (show_field (extract_messages content) f)
           | None \<Rightarrow>
               if arg_values a then show_values (extract_messages content) (arg_segment a)
               else show_structure (extract_messages content)))"
  by (simp add: main_def Let_def and_then_def printed_def split: option.splits)

text \<open>
  C6, as amended. The process ends with status 1 when the file is not found and when no
  message is extracted. Otherwise one selector is in use: the one of \<^verbatim>\<open>--verify\<close>
  when it is given and not empty, else the one of \<^verbatim>\<open>--field\<close> when it is given and
  not empty; a selector that is not in use is not read. When the selector in use is
  malformed the status is 1, and a selector is well formed exactly when it is a segment
  id, one \<^verbatim>\<open>.\<close> and a text without \<^verbatim>\<open>.\<close> that \<^verbatim>\<open>int\<close> accepts. When it is
  well formed and its field number is not negative, and when no selector is in use, the
  process prints the count of messages and then all that the selected view prints, the
  view returns normally and the status is 0. Nothing is said here of a negative field
  number.
\<close>

theorem main_exit_status:
  "(fs (arg_file a) = None \<longrightarrow> exit_status (main fs a) = 1) \<and>
   (fs (arg_file a) = Some content \<and> extract_messages content = [] \<longrightarrow>
      exit_status (main fs a) = 1) \<and>
   (fs (arg_file a) = Some content \<and> extract_messages content \<noteq> [] \<and>
    given (arg_verify a) = Some v \<and> parse_field_spec v = None \<longrightarrow>
      exit_status (main fs a) = 1) \<and>
   (fs (arg_file a) = Some content \<and> extract_messages content \<noteq> [] \<and>
    given (arg_verify a) = Some v \<and> parse_field_spec v = Some (seg, n) \<and> 0 \<le> n \<longrightarrow>
      snd (main fs a) = None \<and> exit_status (main fs a) = 0 \<and>
      fst (main fs a) = (''Found '' @ str_nat (length (extract_messages content)) @ '' message(s)\<newline>'') # fst (verify_field (extract_messages content) v)) \<and>
   (fs (arg_file a) = Some content \<and> extract_messages content \<noteq> [] \<and>
    given (arg_verify a) = None \<and> given (arg_field a) = Some f \<and> parse_field_spec f = None \<longrightarrow>
      exit_status (main fs a) = 1) \<and>
   (fs (arg_file a) = Some content \<and> extract_messages content \<noteq> [] \<and>
    given (arg_verify a) = None \<and> given (arg_field a) = Some f \<and>
    parse_field_spec f = Some (seg, n) \<and> 0 \<le> n \<longrightarrow>
      snd (main fs a) = None \<and> exit_status (main fs a) = 0 \<and>
      fst (main fs a) = (''Found '' @ str_nat (length (extract_messages content)) @ '' message(s)\<newline>'') # fst (show_field (extract_messages content) f)) \<and>
   (fs (arg_file a) = Some content \<and> extract_messages content \<noteq> [] \<and>
    given (arg_verify a) = None \<and> given (arg_field a) = None \<longrightarrow>
      snd (main fs a) = None \<and> exit_status (main fs a) = 0 \<and>
      fst (main fs a) = (''Found '' @ str_nat (length (extract_messages content)) @ '' message(s)\<newline>'') #
        (if arg_values a then show_values (extract_messages content) (arg_segment a)
         else show_structure (extract_messages content))) \<and>
   (parse_field_spec v = Some (seg, n) \<longleftrightarrow>
      (\<exists>num. v = seg @ CHR ''.'' # num \<and> CHR ''.'' \<notin> set seg \<and> CHR ''.'' \<notin> set num \<and>
         py_int num = Some n))"
proof -
  have c1: "fs (arg_file a) = None \<longrightarrow> exit_status (main fs a) = 1"
    by (simp add: main_def exit_status_def)
  have c2: "fs (arg_file a) = Some content \<and> extract_messages content = [] \<longrightarrow>
      exit_status (main fs a) = 1"
    by (simp add: main_def exit_status_def)
  have c3: "fs (arg_file a) = Some content \<and> extract_messages content \<noteq> [] \<and>
    given (arg_verify a) = Some v \<and> parse_field_spec v = None \<longrightarrow>
      exit_status (main fs a) = 1"
    by (simp add: snd_main_found verify_field_exits exit_status_def)
  have c4: "fs (arg_file a) = Some content \<and> extract_messages content \<noteq> [] \<and>
    given (arg_verify a) = Some v \<and> parse_field_spec v = Some (seg, n) \<and> 0 \<le> n \<longrightarrow>
      snd (main fs a) = None \<and> exit_status (main fs a) = 0 \<and>
      fst (main fs a) = (''Found '' @ str_nat (length (extract_messages content)) @ '' message(s)\<newline>'') # fst (verify_field (extract_messages content) v)"
    using verify_field_returns [of v seg n "extract_messages content"]
    by (simp add: snd_main_found fst_main_found exit_status_def)
  have c5: "fs (arg_file a) = Some content \<and> extract_messages content \<noteq> [] \<and>
    given (arg_verify a) = None \<and> given (arg_field a) = Some f \<and> parse_field_spec f = None \<longrightarrow>
      exit_status (main fs a) = 1"
    by (simp add: snd_main_found show_field_exits exit_status_def)
  have c6: "fs (arg_file a) = Some content \<and> extract_messages content \<noteq> [] \<and>
    given (arg_verify a) = None \<and> given (arg_field a) = Some f \<and>
    parse_field_spec f = Some (seg, n) \<and> 0 \<le> n \<longrightarrow>
      snd (main fs a) = None \<and> exit_status (main fs a) = 0 \<and>
      fst (main fs a) = (''Found '' @ str_nat (length (extract_messages content)) @ '' message(s)\<newline>'') # fst (show_field (extract_messages content) f)"
    using show_field_returns [of f seg n "extract_messages content"]
    by (simp add: snd_main_found fst_main_found exit_status_def)
  have c7: "fs (arg_file a) = Some content \<and> extract_messages content \<noteq> [] \<and>
    given (arg_verify a) = None \<and> given (arg_field a) = None \<longrightarrow>
      snd (main fs a) = None \<and> exit_status (main fs a) = 0 \<and>
      fst (main fs a) = (''Found '' @ str_nat (length (extract_messages content)) @ '' message(s)\<newline>'') #
        (if arg_values a then show_values (extract_messages content) (arg_segment a)
         else show_structure (extract_messages content))"
    by (simp add: snd_main_found fst_main_found exit_status_def)
  show ?thesis
    using c1 c2 c3 c4 c5 c6 c7 parse_field_spec_Some_iff [of v seg n] by blast
qed

theorem main_exit_status_witness:
  "[''f'' \<mapsto> ''MSH|a\<newline>PID|1''] ''f'' = Some ''MSH|a\<newline>PID|1'' \<and>
   extract_messages ''MSH|a\<newline>PID|1'' = [[''MSH|a'', ''PID|1'']] \<and>
   given (Some ''PID.1'') = Some ''PID.1'' \<and>
   parse_field_spec ''PID.1'' = Some (''PID'', 1) \<and>
   snd (main [''f'' \<mapsto> ''MSH|a\<newline>PID|1'']
     \<lparr>arg_file = ''f'', arg_values = False, arg_segment = None,
      arg_field = None, arg_verify = Some ''PID.1''\<rparr>) = None \<and>
   exit_status (main [''f'' \<mapsto> ''MSH|a\<newline>PID|1'']
     \<lparr>arg_file = ''f'', arg_values = False, arg_segment = None,
      arg_field = None, arg_verify = Some ''PID.1''\<rparr>) = 0 \<and>
   exit_status (main [''f'' \<mapsto> ''MSH|a\<newline>PID|1'']
     \<lparr>arg_file = ''g'', arg_values = False, arg_segment = None,
      arg_field = None, arg_verify = Some ''PID.1''\<rparr>) = 1 \<and>
   parse_field_spec ''PID.x'' = None \<and>
   exit_status (main [''f'' \<mapsto> ''MSH|a\<newline>PID|1'']
     \<lparr>arg_file = ''f'', arg_values = False, arg_segment = None,
      arg_field = Some ''PID.x'', arg_verify = None\<rparr>) = 1 \<and>
   parse_field_spec [CHR ''P'', CHR ''I'', CHR ''D'', CHR ''.'', CHR 0x1C, CHR ''1''] = None \<and>
   exit_status (main [''f'' \<mapsto> ''MSH|a\<newline>PID|1'']
     \<lparr>arg_file = ''f'', arg_values = False, arg_segment = None, arg_field = None,
      arg_verify = Some [CHR ''P'', CHR ''I'', CHR ''D'', CHR ''.'', CHR 0x1C, CHR ''1'']\<rparr>) = 1 \<and>
   fst (main [''f'' \<mapsto> ''MSH|a\<newline>PID|1'']
     \<lparr>arg_file = ''f'', arg_values = False, arg_segment = None,
      arg_field = None, arg_verify = Some ''PID.1''\<rparr>) =
     [''Found 1 message(s)\<newline>'', ''  PID (1 fields total), field 1 = 1'', ''  Context:'',
      ''    Field 1: 1 <<< '']"
proof -
  have e: "extract_messages ''MSH|a\<newline>PID|1'' = [[''MSH|a'', ''PID|1'']]"
    by code_simp
  have p: "parse_field_spec ''PID.1'' = Some (''PID'', 1)"
    by (simp add: parse_field_spec_def py_int_def int_strip_def is_int_space_def decimal_def is_digit_def
        digit_value_def)
  have q: "parse_field_spec ''PID.x'' = None"
    by (simp add: parse_field_spec_def py_int_def int_strip_def is_int_space_def decimal_def is_digit_def)
  have q': "parse_field_spec [CHR ''P'', CHR ''I'', CHR ''D'', CHR ''.'', CHR 0x1C, CHR ''1''] = None"
    by (simp add: parse_field_spec_def py_int_def int_strip_def is_int_space_def decimal_def is_digit_def)
  have g: "given (Some ''PID.1'') = Some ''PID.1''" "given (Some ''PID.x'') = Some ''PID.x''"
    "given None = None"
    "given (Some [CHR ''P'', CHR ''I'', CHR ''D'', CHR ''.'', CHR 0x1C, CHR ''1'']) =
       Some [CHR ''P'', CHR ''I'', CHR ''D'', CHR ''.'', CHR 0x1C, CHR ''1'']"
    by (simp_all add: given_def)
  have vf: "fst (verify_field [[''MSH|a'', ''PID|1'']] ''PID.1'') =
      [''  PID (1 fields total), field 1 = 1'', ''  Context:'', ''    Field 1: 1 <<< '']"
    by code_simp
  have n1: "str_nat (Suc 0) = ''1''"
    by (simp add: str_nat.simps)
  show ?thesis
    using main_exit_status [of "[''f'' \<mapsto> ''MSH|a\<newline>PID|1'']"
        "\<lparr>arg_file = ''f'', arg_values = False, arg_segment = None,
          arg_field = None, arg_verify = Some ''PID.1''\<rparr>"
        "''MSH|a\<newline>PID|1''" "''PID.1''" "''PID''" 1 "''PID.x''"]
      main_exit_status [of "[''f'' \<mapsto> ''MSH|a\<newline>PID|1'']"
        "\<lparr>arg_file = ''g'', arg_values = False, arg_segment = None,
          arg_field = None, arg_verify = Some ''PID.1''\<rparr>"
        "''MSH|a\<newline>PID|1''" "''PID.1''" "''PID''" 1 "''PID.x''"]
      main_exit_status [of "[''f'' \<mapsto> ''MSH|a\<newline>PID|1'']"
        "\<lparr>arg_file = ''f'', arg_values = False, arg_segment = None,
          arg_field = Some ''PID.x'', arg_verify = None\<rparr>"
        "''MSH|a\<newline>PID|1''" "''PID.1''" "''PID''" 1 "''PID.x''"]
      main_exit_status [of "[''f'' \<mapsto> ''MSH|a\<newline>PID|1'']"
        "\<lparr>arg_file = ''f'', arg_values = False, arg_segment = None, arg_field = None,
          arg_verify = Some [CHR ''P'', CHR ''I'', CHR ''D'', CHR ''.'', CHR 0x1C, CHR ''1'']\<rparr>"
        "''MSH|a\<newline>PID|1''" "[CHR ''P'', CHR ''I'', CHR ''D'', CHR ''.'', CHR 0x1C, CHR ''1'']"
        "''PID''" 1 "''PID.x''"]
    by (simp add: e p q q' g vf n1)
qed

text \<open>
  C6 as stated fails in three places. A malformed \<^verbatim>\<open>--field\<close> selector next to a
  \<^verbatim>\<open>--verify\<close> selector is never read, and an empty selector counts as not given:
  both runs end with status 0. And a negative field number beyond the start of a line
  is a well-formed selector on which the Field view raises \<^verbatim>\<open>IndexError\<close>, so the
  view does not run to completion.
\<close>

theorem unselected_and_negative_counterexample:
  "parse_field_spec ''garbage'' = None \<and>
   exit_status (main [''f'' \<mapsto> ''MSH|a\<newline>PID|1'']
     \<lparr>arg_file = ''f'', arg_values = False, arg_segment = None,
      arg_field = Some ''garbage'', arg_verify = Some ''PID.1''\<rparr>) = 0 \<and>
   parse_field_spec [] = None \<and>
   exit_status (main [''f'' \<mapsto> ''MSH|a\<newline>PID|1'']
     \<lparr>arg_file = ''f'', arg_values = False, arg_segment = None,
      arg_field = None, arg_verify = Some []\<rparr>) = 0 \<and>
   parse_field_spec ''PID.-9'' = Some (''PID'', - 9) \<and>
   main [''f'' \<mapsto> ''MSH|a\<newline>PID|1'']
     \<lparr>arg_file = ''f'', arg_values = False, arg_segment = None,
      arg_field = Some ''PID.-9'', arg_verify = None\<rparr>
     = ([''Found 1 message(s)\<newline>''], Some (Uncaught IndexError)) \<and>
   exit_status (main [''f'' \<mapsto> ''MSH|a\<newline>PID|1'']
     \<lparr>arg_file = ''f'', arg_values = False, arg_segment = None,
      arg_field = Some ''PID.-9'', arg_verify = None\<rparr>) = 1"
  by code_simp

end
